theory Spec2Isabelle
  imports Main "HOL-Library.AList" "HOL-Library.Product_Lexorder"
begin

section \<open>Crossword game: word placement and drag selection\<close>

text \<open>
  A shallow embedding of \<^verbatim>\<open>WordHandler.py\<close> (class \<^verbatim>\<open>Words\<close>) and of the
  selection logic of \<^verbatim>\<open>Main.py\<close>.

  Python's unbounded integers are \<open>int\<close>; a grid coordinate is a pair of them.
  A Python \<^verbatim>\<open>dict\<close> is an association list in insertion order with pairwise distinct
  keys: \<open>AList.update k v\<close> overwrites the value of a key that is present, in place,
  and appends a new key at the end, as \<^verbatim>\<open>d[k] = v\<close> does.

  The module \<^verbatim>\<open>random\<close> is a source of raw draws \<open>rnd :: nat \<Rightarrow> int\<close> read at a
  counter that every draw advances: \<^verbatim>\<open>randrange(n)\<close> is the draw reduced modulo \<open>n\<close>,
  so every value of \<open>[0, n)\<close> is the outcome for some source, and a statement for all
  sources is a statement for every outcome of the random choices.

  An exception is the \<open>Inl\<close> of a sum; a loop that may run forever returns
  \<open>None\<close> when it does.
\<close>

type_synonym coord = "int \<times> int"

type_synonym rand = "nat \<Rightarrow> int"

datatype error = ValueError | IndexError | KeyError | ZeroDivisionError

subsection \<open>The module \<^verbatim>\<open>random\<close>\<close>

definition randrange :: "rand \<Rightarrow> int \<Rightarrow> nat \<Rightarrow> error + (int \<times> nat)" where
  "randrange rnd n i =
     (if n \<le> 0 then Inl ValueError else Inr (rnd i mod n, Suc i))"

definition choice :: "rand \<Rightarrow> 'a list \<Rightarrow> nat \<Rightarrow> error + ('a \<times> nat)" where
  "choice rnd xs i =
     (if xs = [] then Inl IndexError
      else Inr (xs ! nat (rnd i mod int (length xs)), Suc i))"

subsection \<open>\<^verbatim>\<open>Words.__select_orientation\<close>\<close>

definition ORIENTATIONS :: "string list" where
  "ORIENTATIONS = [''HL'', ''HR'', ''VU'', ''VD'']"

text \<open>
  The dict comprehension \<^verbatim>\<open>{word: choice(ORIENTATIONS) for word in word_list}\<close>:
  one draw for each element of the list, stored under the word.
\<close>

fun select_orientation_loop ::
  "rand \<Rightarrow> string list \<Rightarrow> (string \<times> string) list \<Rightarrow> nat
     \<Rightarrow> error + ((string \<times> string) list \<times> nat)" where
  "select_orientation_loop rnd [] d i = Inr (d, i)"
| "select_orientation_loop rnd (word # rest) d i =
     (case choice rnd ORIENTATIONS i of
        Inl e \<Rightarrow> Inl e
      | Inr (orientation, i') \<Rightarrow>
          select_orientation_loop rnd rest (AList.update word orientation d) i')"

definition select_orientation ::
  "rand \<Rightarrow> string list \<Rightarrow> nat \<Rightarrow> error + ((string \<times> string) list \<times> nat)" where
  "select_orientation rnd word_list i = select_orientation_loop rnd word_list [] i"

subsection \<open>\<^verbatim>\<open>Words.__select_random_pos\<close>\<close>

definition select_random_pos ::
  "rand \<Rightarrow> string \<Rightarrow> int \<Rightarrow> nat \<Rightarrow> nat \<Rightarrow> error + (coord list \<times> nat)" where
  "select_random_pos rnd orientation grid_dimension word_len i =
     (if orientation = [] then Inl IndexError
      else if orientation ! 0 = CHR ''H'' then
        (case randrange rnd grid_dimension i of
           Inl e \<Rightarrow> Inl e
         | Inr (y_pos, i1) \<Rightarrow>
             (case randrange rnd (grid_dimension - int word_len + 1) i1 of
                Inl e \<Rightarrow> Inl e
              | Inr (x_pos, i2) \<Rightarrow>
                  Inr (map (\<lambda>k. (x_pos + int k, y_pos)) [0..<word_len], i2)))
      else if orientation ! 0 = CHR ''V'' then
        (case randrange rnd grid_dimension i of
           Inl e \<Rightarrow> Inl e
         | Inr (x_pos, i1) \<Rightarrow>
             (case randrange rnd (grid_dimension - int word_len + 1) i1 of
                Inl e \<Rightarrow> Inl e
              | Inr (y_pos, i2) \<Rightarrow>
                  Inr (map (\<lambda>k. (x_pos, y_pos + int k)) [0..<word_len], i2)))
      else Inr ([], i))"

subsection \<open>\<^verbatim>\<open>Words.__select_pos\<close>\<close>

text \<open>
  \<^verbatim>\<open>int(sqrt(n))\<close> for a list length \<open>n\<close>: the largest \<open>k\<close> with \<open>k * k \<le> n\<close>
  (the floating-point square root is exact far beyond any grid size).
\<close>

fun isqrt_below :: "nat \<Rightarrow> nat \<Rightarrow> nat" where
  "isqrt_below n 0 = 0"
| "isqrt_below n (Suc k) = (if Suc k * Suc k \<le> n then Suc k else isqrt_below n k)"

definition isqrt :: "nat \<Rightarrow> nat" where
  "isqrt n = isqrt_below n n"

text \<open>
  The \<^verbatim>\<open>while any(pos in occupied_positions for pos in positions)\<close> loop: it draws a
  fresh candidate as long as the current one meets an occupied cell, and has no bound.
\<close>

partial_function (option) retry ::
  "rand \<Rightarrow> string \<Rightarrow> int \<Rightarrow> nat \<Rightarrow> coord set \<Rightarrow> coord list \<Rightarrow> nat
     \<Rightarrow> (error + (coord list \<times> nat)) option" where
  "retry rnd orientation grid_dimension word_len occupied_positions positions i =
     (if list_ex (\<lambda>pos. pos \<in> occupied_positions) positions then
        (case select_random_pos rnd orientation grid_dimension word_len i of
           Inl e \<Rightarrow> Some (Inl e)
         | Inr (positions', i') \<Rightarrow>
             retry rnd orientation grid_dimension word_len occupied_positions positions' i')
      else Some (Inr (positions, i)))"

type_synonym pos_dict = "((string \<times> string) \<times> coord list) list"

fun select_pos_loop ::
  "rand \<Rightarrow> int \<Rightarrow> (string \<times> string) list \<Rightarrow> coord set \<Rightarrow> pos_dict \<Rightarrow> nat
     \<Rightarrow> (error + (pos_dict \<times> nat)) option" where
  "select_pos_loop rnd grid_dimension [] occupied_positions pos_dict i =
     Some (Inr (pos_dict, i))"
| "select_pos_loop rnd grid_dimension ((word, orientation) # rest) occupied_positions pos_dict i =
     (case select_random_pos rnd orientation grid_dimension (length word) i of
        Inl e \<Rightarrow> Some (Inl e)
      | Inr (positions, i1) \<Rightarrow>
          (case retry rnd orientation grid_dimension (length word)
                  occupied_positions positions i1 of
             None \<Rightarrow> None
           | Some (Inl e) \<Rightarrow> Some (Inl e)
           | Some (Inr (positions', i2)) \<Rightarrow>
               select_pos_loop rnd grid_dimension rest
                 (occupied_positions \<union> set positions')
                 (AList.update (word, orientation) positions' pos_dict) i2))"

definition select_pos ::
  "rand \<Rightarrow> (string \<times> string) list \<Rightarrow> nat \<Rightarrow> nat \<Rightarrow> (error + (pos_dict \<times> nat)) option" where
  "select_pos rnd word_list grid_square_number i =
     select_pos_loop rnd (int (isqrt grid_square_number)) word_list {} [] i"

text \<open>
  \<^verbatim>\<open>Words.__init__\<close>, with the list read from the word bank as a parameter:
  the value of \<^verbatim>\<open>final_words\<close>.
\<close>

definition Words_init ::
  "rand \<Rightarrow> string list \<Rightarrow> nat \<Rightarrow> nat \<Rightarrow> (error + (pos_dict \<times> nat)) option" where
  "Words_init rnd words grid_size i =
     (case select_orientation rnd words i of
        Inl e \<Rightarrow> Some (Inl e)
      | Inr (words', i') \<Rightarrow> select_pos rnd words' grid_size i')"

section \<open>\<^verbatim>\<open>Main.py\<close>\<close>

subsection \<open>\<^verbatim>\<open>convert_mouse_pos_to_grid\<close>\<close>

text \<open>
  Python's \<^verbatim>\<open>//\<close> and \<^verbatim>\<open>%\<close> on integers are \<open>div\<close> and \<open>mod\<close> on \<open>int\<close>
  (rounding towards minus infinity), and raise on a zero divisor.
\<close>

definition convert_mouse_pos_to_grid :: "coord \<Rightarrow> coord \<Rightarrow> error + coord" where
  "convert_mouse_pos_to_grid mouse_pos block_size =
     (if fst block_size = 0 \<or> snd block_size = 0 then Inl ZeroDivisionError
      else
        let x_pos = (fst mouse_pos - fst mouse_pos mod fst block_size) div fst block_size;
            y_pos = (snd mouse_pos - snd mouse_pos mod snd block_size) div snd block_size
        in Inr (x_pos, y_pos))"

subsection \<open>\<^verbatim>\<open>get_word_data\<close> and its decorator \<^verbatim>\<open>fill_grid\<close>\<close>

text \<open>
  A tile is a surface with its position in pixels. The dictionary \<^verbatim>\<open>alphabets\<close> is
  looked up at one-letter strings only, so it is a map from characters to surfaces of
  an arbitrary type \<open>'s\<close>.
\<close>

type_synonym 's tile = "'s \<times> coord"

text \<open>The loop \<^verbatim>\<open>for i, pos in enumerate(pos_list)\<close> of \<^verbatim>\<open>get_word_data\<close>.\<close>

fun place_letters ::
  "(char \<rightharpoonup> 's) \<Rightarrow> string \<Rightarrow> coord \<Rightarrow> nat \<Rightarrow> coord list \<Rightarrow> error + 's tile list" where
  "place_letters alphabets word block_size i [] = Inr []"
| "place_letters alphabets word block_size i (pos # rest) =
     (if length word \<le> i then Inl IndexError
      else case alphabets (word ! i) of
        None \<Rightarrow> Inl KeyError
      | Some char_surface \<Rightarrow>
          (case place_letters alphabets word block_size (Suc i) rest of
             Inl e \<Rightarrow> Inl e
           | Inr tiles \<Rightarrow>
               Inr ((char_surface, (fst pos * fst block_size, snd pos * snd block_size))
                      # tiles)))"

text \<open>The function \<^verbatim>\<open>get_word_data\<close> as written, before it is decorated.\<close>

fun get_word_data_func ::
  "(char \<rightharpoonup> 's) \<Rightarrow> pos_dict \<Rightarrow> coord \<Rightarrow> error + 's tile list" where
  "get_word_data_func alphabets [] block_size = Inr []"
| "get_word_data_func alphabets (((word, orientation), pos_list) # rest) block_size =
     (if length orientation < 2 then Inl IndexError
      else
        let word' = (if orientation ! 1 \<in> set ''RD'' then rev word else word)
        in case place_letters alphabets word' block_size 0 pos_list of
             Inl e \<Rightarrow> Inl e
           | Inr tiles \<Rightarrow>
               (case get_word_data_func alphabets rest block_size of
                  Inl e \<Rightarrow> Inl e
                | Inr surface_list \<Rightarrow> Inr (tiles @ surface_list)))"

definition letters :: string where
  "letters = ''ABCDEFGHIJKLMNOPQRSUVWXYZ''"

text \<open>
  The two nested loops of the wrapper of \<^verbatim>\<open>fill_grid\<close>, over the cells
  \<open>(i, j)\<close> in the order of the loops.
\<close>

fun fill_cells ::
  "rand \<Rightarrow> (char \<rightharpoonup> 's) \<Rightarrow> coord \<Rightarrow> coord list \<Rightarrow> 's tile list \<Rightarrow> nat
     \<Rightarrow> error + ('s tile list \<times> nat)" where
  "fill_cells rnd alphabets block_size [] original_result n = Inr (original_result, n)"
| "fill_cells rnd alphabets block_size ((i, j) # cells) original_result n =
     (let pos = (i * fst block_size, j * snd block_size) in
      if list_ex (\<lambda>data. pos = snd data) original_result
      then fill_cells rnd alphabets block_size cells original_result n
      else case choice rnd letters n of
        Inl e \<Rightarrow> Inl e
      | Inr (random_alphabet, n') \<Rightarrow>
          (case alphabets random_alphabet of
             None \<Rightarrow> Inl KeyError
           | Some surface \<Rightarrow>
               fill_cells rnd alphabets block_size cells
                 (original_result @ [(surface, pos)]) n'))"

definition grid_cells :: "nat \<Rightarrow> coord list" where
  "grid_cells grid_dimension =
     concat (map (\<lambda>i. map (\<lambda>j. (int i, int j)) [0..<grid_dimension]) [0..<grid_dimension])"

text \<open>The decorated \<^verbatim>\<open>get_word_data\<close>, that is the wrapper of \<^verbatim>\<open>fill_grid\<close>.\<close>

definition get_word_data ::
  "rand \<Rightarrow> (char \<rightharpoonup> 's) \<Rightarrow> pos_dict \<Rightarrow> coord \<Rightarrow> nat \<Rightarrow> nat
     \<Rightarrow> error + ('s tile list \<times> nat)" where
  "get_word_data rnd alphabets word_data block_size grid_square_number n =
     (case get_word_data_func alphabets word_data block_size of
        Inl e \<Rightarrow> Inl e
      | Inr original_result \<Rightarrow>
          fill_cells rnd alphabets block_size (grid_cells (isqrt grid_square_number))
            original_result n)"

subsection \<open>\<^verbatim>\<open>get_grid_pos\<close>\<close>

definition get_grid_pos :: "coord \<Rightarrow> coord \<Rightarrow> coord \<Rightarrow> error + coord list" where
  "get_grid_pos block_size grid_size grid_offset =
     (if fst block_size = 0 then Inl ZeroDivisionError
      else
        let columns = nat (fst grid_size div fst block_size);
            rows = nat (snd grid_size div fst block_size)
        in if snd block_size = 0 \<and> 0 < columns \<and> 0 < rows then Inl ZeroDivisionError
           else Inr (concat (map (\<lambda>i. map (\<lambda>j.
                  ((int i * fst block_size + fst grid_offset) div fst block_size,
                   (int j * snd block_size + snd grid_offset) div snd block_size))
                [0..<rows]) [0..<columns])))"

subsection \<open>The game loop of \<^verbatim>\<open>main\<close>\<close>

text \<open>
  The variables of \<^verbatim>\<open>main\<close> that the loop changes. The rendering (\<^verbatim>\<open>draw\<close>, the clock,
  the background images) is not modelled.
\<close>

record 's game =
  words :: pos_dict
  alphabet_data :: "'s tile list"
  mouse_drag_pos :: "coord list"
  drag_event :: bool

definition grid_size :: coord where
  "grid_size = (600, 600)"

definition block_size :: coord where
  "block_size = (50, 50)"

text \<open>
  The events the loop tells apart. The loop over \<^verbatim>\<open>pygame.event.get()\<close> returns the
  new value of \<^verbatim>\<open>drag_event\<close>, or \<open>None\<close> when \<^verbatim>\<open>QUIT\<close> makes it call \<^verbatim>\<open>exit()\<close>.
\<close>

datatype event = QUIT | MOUSEBUTTONDOWN | MOUSEBUTTONUP | OTHER

fun handle_events :: "event list \<Rightarrow> bool \<Rightarrow> bool option" where
  "handle_events [] drag = Some drag"
| "handle_events (ev # evs) drag =
     (if ev = QUIT then None
      else if ev = MOUSEBUTTONDOWN then handle_events evs True
      else if ev = MOUSEBUTTONUP then handle_events evs False
      else handle_events evs drag)"

text \<open>
  The block \<^verbatim>\<open>if drag_event:\<close> that records the cell under the pointer.
  \<^verbatim>\<open>list.sort\<close> on tuples of integers sorts lexicographically.
\<close>

definition record_drag :: "coord \<Rightarrow> coord list \<Rightarrow> error + coord list" where
  "record_drag mouse_pos trace =
     (case convert_mouse_pos_to_grid mouse_pos block_size of
        Inl e \<Rightarrow> Inl e
      | Inr mouse_grid_pos \<Rightarrow>
          Inr (sort (if mouse_grid_pos \<notin> set trace then trace @ [mouse_grid_pos] else trace)))"

text \<open>
  The loop \<^verbatim>\<open>for i, (_, pos) in enumerate(alphabet_data)\<close> with its
  \<^verbatim>\<open>alphabet_data.pop(i)\<close>: the list is changed while it is iterated, so after a
  \<^verbatim>\<open>pop\<close> the iteration goes on at index \<open>i + 1\<close> of the shortened list.
\<close>

function pop_matching :: "coord \<Rightarrow> 's tile list \<Rightarrow> nat \<Rightarrow> 's tile list" where
  "pop_matching mouse_pos data i =
     (if i < length data then
        (if mouse_pos = (fst (snd (data ! i)) div fst block_size,
                         snd (snd (data ! i)) div snd block_size)
         then pop_matching mouse_pos (take i data @ drop (Suc i) data) (Suc i)
         else pop_matching mouse_pos data (Suc i))
      else data)"
  by pat_completeness auto
termination
  by (relation "measure (\<lambda>(mouse_pos, data, i). length data - i)") auto

declare pop_matching.simps [simp del]

text \<open>The block \<^verbatim>\<open>if not drag_event and mouse_drag_pos:\<close> that checks the selection.\<close>

definition check_selection ::
  "bool \<Rightarrow> coord list \<Rightarrow> pos_dict \<Rightarrow> 's tile list \<Rightarrow> pos_dict \<times> 's tile list" where
  "check_selection drag trace ws data =
     (if \<not> drag \<and> trace \<noteq> [] then
        (if list_ex (\<lambda>word_data. trace = word_data) (map snd ws) then
           (filter (\<lambda>(word_data, pos). pos \<noteq> trace) ws,
            fold (\<lambda>mouse_pos data. pop_matching mouse_pos data 0) trace data)
         else (ws, data))
      else (ws, data))"

text \<open>
  One iteration of \<^verbatim>\<open>while running\<close>, for the events of the tick and the position of
  the pointer: the lines it prints and the state after it.
\<close>

datatype 's status = Running "'s game" | Exited | Raised error

definition tick :: "'s game \<Rightarrow> event list \<Rightarrow> coord \<Rightarrow> string list \<times> 's status" where
  "tick s events mouse_pos =
     (let trace0 = (if \<not> drag_event s then [] else mouse_drag_pos s) in
      case handle_events events (drag_event s) of
        None \<Rightarrow> ([], Exited)
      | Some drag \<Rightarrow>
          (case (if drag then record_drag mouse_pos trace0 else Inr trace0) of
             Inl e \<Rightarrow> ([], Raised e)
           | Inr trace \<Rightarrow>
               (case check_selection drag trace (words s) (alphabet_data s) of
                  (words', alphabet_data') \<Rightarrow>
                    (if words' = [] then [''Congrats''] else [],
                     Running \<lparr>words = words', alphabet_data = alphabet_data',
                              mouse_drag_pos = trace, drag_event = drag\<rparr>))))"

text \<open>The loop over the ticks of a session, as far as the given inputs go.\<close>

fun main_loop :: "'s game \<Rightarrow> (event list \<times> coord) list \<Rightarrow> string list \<times> 's status" where
  "main_loop s [] = ([], Running s)"
| "main_loop s ((events, mouse_pos) # rest) =
     (case tick s events mouse_pos of
        (out, Running s') \<Rightarrow> (case main_loop s' rest of (out', st) \<Rightarrow> (out @ out', st))
      | (out, st) \<Rightarrow> (out, st))"

text \<open>
  The part of \<^verbatim>\<open>main\<close> before the loop, with the word bank and the letter tiles as
  parameters: the state in which the loop starts.
\<close>

definition main_setup ::
  "rand \<Rightarrow> string list \<Rightarrow> (char \<rightharpoonup> 's) \<Rightarrow> (error + 's game) option" where
  "main_setup rnd word_bank alphabet_tiles =
     (case get_grid_pos block_size grid_size (0, 0) of
        Inl e \<Rightarrow> Some (Inl e)
      | Inr grid_pos \<Rightarrow>
          (case Words_init rnd word_bank (length grid_pos) 0 of
             None \<Rightarrow> None
           | Some (Inl e) \<Rightarrow> Some (Inl e)
           | Some (Inr (final_words, n)) \<Rightarrow>
               (case get_word_data rnd alphabet_tiles final_words block_size (length grid_pos) n of
                  Inl e \<Rightarrow> Some (Inl e)
                | Inr (tiles, n') \<Rightarrow>
                    Some (Inr \<lparr>words = final_words, alphabet_data = tiles,
                               mouse_drag_pos = [], drag_event = False\<rparr>))))"

subsection \<open>Auxiliary notions\<close>

text \<open>A random source that replays the recorded draws \<open>xs\<close> and then yields \<open>0\<close>.\<close>

definition draws :: "int list \<Rightarrow> rand" where
  "draws xs = (\<lambda>i. if i < length xs then xs ! i else 0)"

text \<open>
  The invariant of the loop of \<^verbatim>\<open>__select_pos\<close>: the keys of \<open>pos_dict\<close> are
  distinct, \<open>occupied_positions\<close> is the union of its coordinate lists, two different
  entries share no coordinate, and every coordinate list was returned by
  \<^verbatim>\<open>__select_random_pos\<close> for its word and orientation.
\<close>

definition placement_inv :: "rand \<Rightarrow> int \<Rightarrow> pos_dict \<Rightarrow> coord set \<Rightarrow> bool" where
  "placement_inv rnd dim pd occ \<longleftrightarrow>
     distinct (map fst pd) \<and> occ = (\<Union>e\<in>set pd. set (snd e))
     \<and> (\<forall>e1\<in>set pd. \<forall>e2\<in>set pd. e1 \<noteq> e2 \<longrightarrow> set (snd e1) \<inter> set (snd e2) = {})
     \<and> (\<forall>e\<in>set pd. \<exists>j j'. select_random_pos rnd (snd (fst e)) dim (length (fst (fst e))) j
                                = Inr (snd e, j'))"

text \<open>The cell of a tile, as the loop that removes tiles computes it from the pixels.\<close>

definition tile_cell :: "'s tile \<Rightarrow> coord" where
  "tile_cell t = (fst (snd t) div fst block_size, snd (snd t) div snd block_size)"

text \<open>
  What holds of the state of the loop in every tick of a session: the active words have
  distinct keys and pairwise disjoint coordinate lists, no two tiles lie on the same
  cell, and while a drag is going on the selection trace is not empty.
\<close>

definition game_inv :: "'s game \<Rightarrow> bool" where
  "game_inv s \<longleftrightarrow>
     distinct (map fst (words s))
     \<and> (\<forall>e1\<in>set (words s). \<forall>e2\<in>set (words s).
           e1 \<noteq> e2 \<longrightarrow> set (snd e1) \<inter> set (snd e2) = {})
     \<and> distinct (map tile_cell (alphabet_data s))
     \<and> (drag_event s \<longrightarrow> mouse_drag_pos s \<noteq> [])"

text \<open>
  The surfaces of all the tiles that the display data holds at the pixel position of a
  cell, and the cells of a placement in the direction in which its word is read:
  \<^verbatim>\<open>HR\<close> (right to left) and \<^verbatim>\<open>VD\<close> (bottom to top) are read against the order in
  which the coordinates are stored, the other two along it.
\<close>

definition tiles_at :: "'s tile list \<Rightarrow> coord \<Rightarrow> coord \<Rightarrow> 's list" where
  "tiles_at tiles bs cell =
     map fst (filter (\<lambda>t. snd t = (fst cell * fst bs, snd cell * snd bs)) tiles)"

definition reading_order :: "string \<Rightarrow> coord list \<Rightarrow> coord list" where
  "reading_order orientation pos_list =
     (if orientation = ''HR'' \<or> orientation = ''VD'' then rev pos_list else pos_list)"

section \<open>The placement engine\<close>

subsection \<open>Orientation selection and candidate positions\<close>

lemma choice_ORIENTATIONS:
  "choice rnd ORIENTATIONS i = Inr (ORIENTATIONS ! nat (rnd i mod 4), Suc i)"
  by (simp add: choice_def ORIENTATIONS_def)

lemma choice_ORIENTATIONS_mem: "ORIENTATIONS ! nat (rnd i mod 4) \<in> set ORIENTATIONS"
proof -
  have "0 \<le> rnd i mod 4" "rnd i mod 4 < 4" by simp_all
  then have "nat (rnd i mod 4) < length ORIENTATIONS"
    by (simp add: ORIENTATIONS_def)
  then show ?thesis by (rule nth_mem)
qed

lemma set_update_subset: "set (AList.update k v al) \<subseteq> insert (k, v) (set al)"
  by (induction al) auto

lemma update_fresh: "k \<notin> fst ` set al \<Longrightarrow> AList.update k v al = al @ [(k, v)]"
  by (induction al) auto

lemma select_orientation_loop_props:
  assumes "distinct (map fst d)" and "snd ` set d \<subseteq> set ORIENTATIONS"
  shows "\<exists>d'. select_orientation_loop rnd ws d i = Inr (d', i + length ws)
            \<and> distinct (map fst d') \<and> fst ` set d' = fst ` set d \<union> set ws
            \<and> snd ` set d' \<subseteq> set ORIENTATIONS"
  using assms
proof (induction ws arbitrary: d i)
  case Nil
  then show ?case by simp
next
  case (Cons w ws)
  let ?o = "ORIENTATIONS ! nat (rnd i mod 4)"
  let ?d = "AList.update w ?o d"
  have 1: "distinct (map fst ?d)" using Cons.prems(1) by (rule distinct_update)
  have 2: "snd ` set ?d \<subseteq> set ORIENTATIONS"
    using set_update_subset [of w ?o d] Cons.prems(2) choice_ORIENTATIONS_mem [of rnd i]
    by fastforce
  from Cons.IH [OF 1 2, of "Suc i"] obtain d' where
    d': "select_orientation_loop rnd ws ?d (Suc i) = Inr (d', Suc i + length ws)"
      "distinct (map fst d')" "fst ` set d' = fst ` set ?d \<union> set ws"
      "snd ` set d' \<subseteq> set ORIENTATIONS"
    by blast
  have "fst ` set ?d = insert w (fst ` set d)" by (simp add: dom_update)
  with d' show ?case by (simp add: choice_ORIENTATIONS)
qed

lemma select_orientation_props:
  "\<exists>d'. select_orientation rnd ws i = Inr (d', i + length ws)
        \<and> distinct (map fst d') \<and> fst ` set d' = set ws
        \<and> snd ` set d' \<subseteq> set ORIENTATIONS"
  using select_orientation_loop_props [of "[]" rnd ws i]
  by (simp add: select_orientation_def)

lemma ORIENTATIONS_cases:
  "orientation \<in> set ORIENTATIONS \<Longrightarrow>
     orientation \<noteq> [] \<and> (orientation ! 0 = CHR ''H'' \<or> orientation ! 0 = CHR ''V'')"
  by (auto simp: ORIENTATIONS_def)

lemma select_random_pos_H:
  assumes "orientation \<noteq> []" "orientation ! 0 = CHR ''H''"
    and "select_random_pos rnd orientation dim len i = Inr (ps, i')"
  shows "0 < dim \<and> int len \<le> dim \<and> i' = i + 2
     \<and> ps = map (\<lambda>k. (rnd (Suc i) mod (dim - int len + 1) + int k, rnd i mod dim)) [0..<len]"
  using assms
  by (auto simp: select_random_pos_def randrange_def split: if_splits)

lemma select_random_pos_V:
  assumes "orientation \<noteq> []" "orientation ! 0 \<noteq> CHR ''H''" "orientation ! 0 = CHR ''V''"
    and "select_random_pos rnd orientation dim len i = Inr (ps, i')"
  shows "0 < dim \<and> int len \<le> dim \<and> i' = i + 2
     \<and> ps = map (\<lambda>k. (rnd i mod dim, rnd (Suc i) mod (dim - int len + 1) + int k)) [0..<len]"
  using assms
  by (auto simp: select_random_pos_def randrange_def split: if_splits)

lemma select_random_pos_error:
  "orientation \<in> set ORIENTATIONS \<Longrightarrow> select_random_pos rnd orientation dim len i = Inl e
     \<Longrightarrow> e = ValueError \<and> (dim \<le> 0 \<or> dim < int len)"
  by (auto simp: ORIENTATIONS_def select_random_pos_def randrange_def split: if_splits)

subsection \<open>The retry loop and the loop over the words\<close>

lemma retry_result:
  assumes "retry rnd ori dim len occ ps i = Some y"
  shows "(\<forall>ps' i'. y = Inr (ps', i') \<longrightarrow>
            set ps' \<inter> occ = {}
            \<and> ((ps', i') = (ps, i) \<or> (\<exists>j. select_random_pos rnd ori dim len j = Inr (ps', i'))))
       \<and> (\<forall>e. y = Inl e \<longrightarrow> (\<exists>j. select_random_pos rnd ori dim len j = Inl e))"
proof -
  let ?P = "\<lambda>rnd ori dim len occ ps i y.
       (\<forall>ps' i'. y = Inr (ps', i') \<longrightarrow>
            set ps' \<inter> occ = {}
            \<and> ((ps', i') = (ps, i) \<or> (\<exists>j. select_random_pos rnd ori dim len j = Inr (ps', i'))))
       \<and> (\<forall>e. y = Inl e \<longrightarrow> (\<exists>j. select_random_pos rnd ori dim len j = Inl e))"
  show ?thesis
  proof (rule retry.raw_induct [where P = ?P, OF _ assms])
    fix f :: "rand \<Rightarrow> string \<Rightarrow> int \<Rightarrow> nat \<Rightarrow> coord set \<Rightarrow> coord list \<Rightarrow> nat
                \<Rightarrow> (error + (coord list \<times> nat)) option"
    fix rnd ori dim len occ ps i y
    assume IH: "\<And>rnd ori dim len occ ps i y. f rnd ori dim len occ ps i = Some y
                  \<Longrightarrow> ?P rnd ori dim len occ ps i y"
      and eq: "(if list_ex (\<lambda>pos. pos \<in> occ) ps then
                 (case select_random_pos rnd ori dim len i of
                    Inl e \<Rightarrow> Some (Inl e)
                  | Inr (positions', i') \<Rightarrow> f rnd ori dim len occ positions' i')
                else Some (Inr (ps, i))) = Some y"
    show "?P rnd ori dim len occ ps i y"
    proof (cases "list_ex (\<lambda>pos. pos \<in> occ) ps")
      case False
      with eq have "y = Inr (ps, i)" by simp
      moreover from False have "set ps \<inter> occ = {}" by (auto simp: list_ex_iff)
      ultimately show ?thesis by simp
    next
      case True
      show ?thesis
      proof (cases "select_random_pos rnd ori dim len i")
        case (Inl e)
        with True eq have "y = Inl e" by simp
        with Inl show ?thesis by auto
      next
        case (Inr r)
        obtain ps1 i1 where r: "r = (ps1, i1)" by (cases r)
        with True Inr eq have "f rnd ori dim len occ ps1 i1 = Some y" by simp
        from IH [OF this] have "?P rnd ori dim len occ ps1 i1 y" .
        with Inr r show ?thesis by blast
      qed
    qed
  qed
qed

lemma placement_inv_extend:
  assumes inv: "placement_inv rnd dim pd occ"
    and fresh: "k \<notin> fst ` set pd"
    and disj: "set ps \<inter> occ = {}"
    and sel: "select_random_pos rnd (snd k) dim (length (fst k)) j = Inr (ps, j')"
  shows "placement_inv rnd dim (AList.update k ps pd) (occ \<union> set ps)"
proof -
  have upd: "AList.update k ps pd = pd @ [(k, ps)]" using fresh by (rule update_fresh)
  have occ: "occ = (\<Union>e\<in>set pd. set (snd e))" using inv by (simp add: placement_inv_def)
  have old: "\<And>e. e \<in> set pd \<Longrightarrow> set (snd e) \<inter> set ps = {}"
    using disj occ by auto
  show ?thesis
    unfolding placement_inv_def upd
  proof (intro conjI)
    show "distinct (map fst (pd @ [(k, ps)]))"
      using inv fresh by (simp add: placement_inv_def)
    show "occ \<union> set ps = (\<Union>e\<in>set (pd @ [(k, ps)]). set (snd e))"
      using occ by auto
    show "\<forall>e1\<in>set (pd @ [(k, ps)]). \<forall>e2\<in>set (pd @ [(k, ps)]).
            e1 \<noteq> e2 \<longrightarrow> set (snd e1) \<inter> set (snd e2) = {}"
    proof (intro ballI impI)
      fix e1 e2
      assume e: "e1 \<in> set (pd @ [(k, ps)])" "e2 \<in> set (pd @ [(k, ps)])" "e1 \<noteq> e2"
      from inv have pw: "\<And>a b. a \<in> set pd \<Longrightarrow> b \<in> set pd \<Longrightarrow> a \<noteq> b
                           \<Longrightarrow> set (snd a) \<inter> set (snd b) = {}"
        by (simp add: placement_inv_def)
      from e consider "e1 \<in> set pd" "e2 \<in> set pd" | "e1 \<in> set pd" "e2 = (k, ps)"
        | "e1 = (k, ps)" "e2 \<in> set pd" by auto
      then show "set (snd e1) \<inter> set (snd e2) = {}"
      proof cases
        case 1 with pw e(3) show ?thesis by blast
      next
        case 2 with old show ?thesis by simp
      next
        case 3 with old [of e2] show ?thesis by auto
      qed
    qed
    show "\<forall>e\<in>set (pd @ [(k, ps)]). \<exists>j j'.
            select_random_pos rnd (snd (fst e)) dim (length (fst (fst e))) j = Inr (snd e, j')"
      using inv sel by (auto simp: placement_inv_def)
  qed
qed

lemma select_pos_loop_inv:
  assumes "select_pos_loop rnd dim wl occ pd i = Some (Inr (pd', i'))"
    and "distinct wl" and "set wl \<inter> fst ` set pd = {}"
    and "placement_inv rnd dim pd occ"
  shows "placement_inv rnd dim pd' (\<Union>e\<in>set pd'. set (snd e)) \<and> map fst pd' = map fst pd @ wl"
  using assms
proof (induction wl arbitrary: occ pd i)
  case Nil
  then show ?case by (simp add: placement_inv_def)
next
  case (Cons w wl)
  obtain word ori where w: "w = (word, ori)" by (cases w)
  from Cons.prems(1) w obtain ps1 i1 where
    s1: "select_random_pos rnd ori dim (length word) i = Inr (ps1, i1)"
    by (auto split: sum.splits)
  from Cons.prems(1) w s1 obtain ps2 i2 where
    r: "retry rnd ori dim (length word) occ ps1 i1 = Some (Inr (ps2, i2))"
    and rest: "select_pos_loop rnd dim wl (occ \<union> set ps2)
                 (AList.update (word, ori) ps2 pd) i2 = Some (Inr (pd', i'))"
    by (auto split: option.splits sum.splits)
  from retry_result [OF r] s1 have disj: "set ps2 \<inter> occ = {}"
    and sel: "\<exists>j j'. select_random_pos rnd ori dim (length word) j = Inr (ps2, j')"
    by auto
  from sel obtain j j' where
    sel': "select_random_pos rnd (snd (word, ori)) dim (length (fst (word, ori))) j = Inr (ps2, j')"
    by auto
  have fresh: "(word, ori) \<notin> fst ` set pd" using Cons.prems(3) w by auto
  have inv2: "placement_inv rnd dim (AList.update (word, ori) ps2 pd) (occ \<union> set ps2)"
    using Cons.prems(4) fresh disj sel' by (rule placement_inv_extend)
  have upd: "AList.update (word, ori) ps2 pd = pd @ [((word, ori), ps2)]"
    using fresh by (rule update_fresh)
  have d: "distinct wl" using Cons.prems(2) by simp
  have f: "set wl \<inter> fst ` set (AList.update (word, ori) ps2 pd) = {}"
    using Cons.prems(2,3) w by (auto simp: upd)
  from Cons.IH [OF rest d f inv2] show ?case by (simp add: upd w)
qed

lemma select_pos_inv:
  assumes "select_pos rnd wl n i = Some (Inr (pd', i'))" and "distinct wl"
  shows "placement_inv rnd (int (isqrt n)) pd' (\<Union>e\<in>set pd'. set (snd e)) \<and> map fst pd' = wl"
  using select_pos_loop_inv [of rnd "int (isqrt n)" wl "{}" "[]" i pd' i'] assms
  by (simp add: select_pos_def placement_inv_def)

lemma Words_init_inv:
  assumes "Words_init rnd word_list n i = Some (Inr (pd, i'))"
  shows "placement_inv rnd (int (isqrt n)) pd (\<Union>e\<in>set pd. set (snd e))
       \<and> distinct (map (fst \<circ> fst) pd) \<and> (fst \<circ> fst) ` set pd = set word_list
       \<and> (snd \<circ> fst) ` set pd \<subseteq> set ORIENTATIONS"
proof -
  from select_orientation_props [of rnd word_list i] obtain d where
    d: "select_orientation rnd word_list i = Inr (d, i + length word_list)"
      "distinct (map fst d)" "fst ` set d = set word_list" "snd ` set d \<subseteq> set ORIENTATIONS"
    by blast
  with assms have sp: "select_pos rnd d n (i + length word_list) = Some (Inr (pd, i'))"
    by (simp add: Words_init_def)
  have "distinct d" using d(2) by (rule distinct_map [THEN iffD1, THEN conjunct1])
  from select_pos_inv [OF sp this] have inv: "placement_inv rnd (int (isqrt n)) pd (\<Union>e\<in>set pd. set (snd e))"
    and keys: "map fst pd = d" by simp_all
  have "map (fst \<circ> fst) pd = map fst d" using keys by (simp flip: map_map)
  moreover have "(fst \<circ> fst) ` set pd = fst ` set d" using keys
    by (metis image_comp set_map)
  moreover have "(snd \<circ> fst) ` set pd = snd ` set d" using keys
    by (metis image_comp set_map)
  ultimately show ?thesis using inv d by simp
qed

subsection \<open>Runs on concrete inputs\<close>

lemma retry_free:
  "\<not> list_ex (\<lambda>pos. pos \<in> occ) ps \<Longrightarrow> retry rnd ori dim len occ ps i = Some (Inr (ps, i))"
  by (subst retry.simps) simp

lemma retry_hit:
  "list_ex (\<lambda>pos. pos \<in> occ) ps \<Longrightarrow> select_random_pos rnd ori dim len i = Inr (ps', i')
     \<Longrightarrow> retry rnd ori dim len occ ps i = retry rnd ori dim len occ ps' i'"
  by (subst retry.simps) simp

lemma isqrt_16: "isqrt 16 = 4"
  by code_simp

lemma isqrt_4: "isqrt 4 = 2"
  by code_simp

lemma isqrt_1: "isqrt 1 = 1"
  by code_simp

lemma upt_3: "[0..<3] = [0, 1, 2]"
  by (simp add: upt_rec)

lemma run_cat_dog:
  "Words_init (draws [0, 2, 1, 0, 0, 0, 3, 0]) [''CAT'', ''DOG''] 16 0 =
     Some (Inr ([((''CAT'', ''HL''), [(0, 1), (1, 1), (2, 1)]),
                 ((''DOG'', ''VU''), [(3, 0), (3, 1), (3, 2)])], 8))"
proof -
  let ?r = "draws [0, 2, 1, 0, 0, 0, 3, 0]"
  have o: "select_orientation ?r [''CAT'', ''DOG''] 0 = Inr ([(''CAT'', ''HL''), (''DOG'', ''VU'')], 2)"
    by (simp add: select_orientation_def choice_def ORIENTATIONS_def draws_def)
  have c: "select_random_pos ?r ''HL'' 4 (length ''CAT'') 2 = Inr ([(0, 1), (1, 1), (2, 1)], 4)"
    by (simp add: select_random_pos_def randrange_def draws_def)
  have d1: "select_random_pos ?r ''VU'' 4 (length ''DOG'') 4 = Inr ([(0, 0), (0, 1), (0, 2)], 6)"
    by (simp add: select_random_pos_def randrange_def draws_def)
  have d2: "select_random_pos ?r ''VU'' 4 (length ''DOG'') 6 = Inr ([(3, 0), (3, 1), (3, 2)], 8)"
    by (simp add: select_random_pos_def randrange_def draws_def)
  have r1: "retry ?r ''HL'' 4 (length ''CAT'') {} [(0, 1), (1, 1), (2, 1)] 4 = Some (Inr ([(0, 1), (1, 1), (2, 1)], 4))"
    by (rule retry_free) simp
  have r2: "retry ?r ''VU'' 4 (length ''DOG'') ({} \<union> set [(0, 1), (1, 1), (2, 1)]) [(0, 0), (0, 1), (0, 2)] 6
              = Some (Inr ([(3, 0), (3, 1), (3, 2)], 8))"
    by (subst retry_hit [OF _ d2]) (simp_all add: retry_free)
  show ?thesis
    by (simp only: Words_init_def o select_pos_def isqrt_16 of_nat_numeral select_pos_loop.simps
          c d1 r1 r2 sum.case prod.case option.case AList.update.simps fst_conv if_False if_True
          prod.inject list.inject char.inject simp_thms)
qed

subsection \<open>Properties of the final mapping\<close>

lemma select_random_pos_geometry:
  assumes ori: "ori \<in> set ORIENTATIONS"
    and sel: "select_random_pos rnd ori dim len j = Inr (ps, j')"
  shows "length ps = len \<and> distinct ps
     \<and> (\<forall>p\<in>set ps. 0 \<le> fst p \<and> fst p < dim \<and> 0 \<le> snd p \<and> snd p < dim)
     \<and> (ori = ''HL'' \<or> ori = ''HR'' \<longrightarrow>
           (\<forall>k<length ps. ps ! k = (fst (ps ! 0) + int k, snd (ps ! 0))))
     \<and> (ori = ''VU'' \<or> ori = ''VD'' \<longrightarrow>
           (\<forall>k<length ps. ps ! k = (fst (ps ! 0), snd (ps ! 0) + int k)))"
proof -
  from ori consider "ori = ''HL'' \<or> ori = ''HR''" | "ori = ''VU'' \<or> ori = ''VD''"
    by (auto simp: ORIENTATIONS_def)
  then show ?thesis
  proof cases
    case 1
    then have h: "ori \<noteq> []" "ori ! 0 = CHR ''H''" and nv: "\<not> (ori = ''VU'' \<or> ori = ''VD'')"
      by auto
    let ?x = "rnd (Suc j) mod (dim - int len + 1)" and ?y = "rnd j mod dim"
    from select_random_pos_H [OF h sel] have dim: "0 < dim" "int len \<le> dim"
      and ps: "ps = map (\<lambda>k. (?x + int k, ?y)) [0..<len]" by simp_all
    have x: "0 \<le> ?x" "?x < dim - int len + 1"
      using dim pos_mod_bound [of "dim - int len + 1" "rnd (Suc j)"] by simp_all
    have y: "0 \<le> ?y" "?y < dim" using dim by simp_all
    have "distinct ps" unfolding ps by (simp add: distinct_map inj_on_def)
    moreover have "\<forall>p\<in>set ps. 0 \<le> fst p \<and> fst p < dim \<and> 0 \<le> snd p \<and> snd p < dim"
      unfolding ps using x y by auto
    moreover have "length ps = len" unfolding ps by simp
    moreover have "\<forall>k<length ps. ps ! k = (fst (ps ! 0) + int k, snd (ps ! 0))"
      unfolding ps by simp
    ultimately show ?thesis using nv by blast
  next
    case 2
    then have v: "ori \<noteq> []" "ori ! 0 \<noteq> CHR ''H''" "ori ! 0 = CHR ''V''"
      and nh: "\<not> (ori = ''HL'' \<or> ori = ''HR'')"
      by auto
    let ?y = "rnd (Suc j) mod (dim - int len + 1)" and ?x = "rnd j mod dim"
    from select_random_pos_V [OF v sel] have dim: "0 < dim" "int len \<le> dim"
      and ps: "ps = map (\<lambda>k. (?x, ?y + int k)) [0..<len]" by simp_all
    have y: "0 \<le> ?y" "?y < dim - int len + 1"
      using dim pos_mod_bound [of "dim - int len + 1" "rnd (Suc j)"] by simp_all
    have x: "0 \<le> ?x" "?x < dim" using dim by simp_all
    have "distinct ps" unfolding ps by (simp add: distinct_map inj_on_def)
    moreover have "\<forall>p\<in>set ps. 0 \<le> fst p \<and> fst p < dim \<and> 0 \<le> snd p \<and> snd p < dim"
      unfolding ps using x y by auto
    moreover have "length ps = len" unfolding ps by simp
    moreover have "\<forall>k<length ps. ps ! k = (fst (ps ! 0), snd (ps ! 0) + int k)"
      unfolding ps by simp
    ultimately show ?thesis using nh by blast
  qed
qed

lemma Words_init_entry:
  assumes run: "Words_init rnd word_list n i = Some (Inr (pd, i'))"
    and e: "((word, ori), ps) \<in> set pd"
  shows "ori \<in> set ORIENTATIONS
       \<and> (\<exists>j j'. select_random_pos rnd ori (int (isqrt n)) (length word) j = Inr (ps, j'))"
proof -
  from Words_init_inv [OF run] have inv: "placement_inv rnd (int (isqrt n)) pd (\<Union>e\<in>set pd. set (snd e))"
    and o: "(snd \<circ> fst) ` set pd \<subseteq> set ORIENTATIONS" by simp_all
  from o e have "ori \<in> set ORIENTATIONS" by force
  moreover from inv e have "\<exists>j j'. select_random_pos rnd ori (int (isqrt n)) (length word) j = Inr (ps, j')"
    unfolding placement_inv_def by fastforce
  ultimately show ?thesis by simp
qed

text \<open>
  Claim C1. Whenever \<^verbatim>\<open>Words.__init__\<close> completes, for every word list, grid size
  and random source, the keys of \<^verbatim>\<open>final_words\<close> are distinct and the coordinate
  lists of two different entries have no coordinate in common.
\<close>

theorem placements_pairwise_disjoint:
  assumes "Words_init rnd word_list grid_square_number i = Some (Inr (final_words, i'))"
  shows "distinct (map fst final_words)
       \<and> (\<forall>e1\<in>set final_words. \<forall>e2\<in>set final_words.
             e1 \<noteq> e2 \<longrightarrow> set (snd e1) \<inter> set (snd e2) = {})"
  using Words_init_inv [OF assms] unfolding placement_inv_def by blast

theorem placements_pairwise_disjoint_witness:
  "Words_init (draws [0, 2, 1, 0, 0, 0, 3, 0]) [''CAT'', ''DOG''] 16 0 =
     Some (Inr ([((''CAT'', ''HL''), [(0, 1), (1, 1), (2, 1)]),
                 ((''DOG'', ''VU''), [(3, 0), (3, 1), (3, 2)])], 8))
   \<and> set [(0, 1), (1, 1), (2, 1)] \<inter> set [(3, 0), (3, 1), (3, 2 :: int)] = ({} :: coord set)"
  using placements_pairwise_disjoint [OF run_cat_dog] by (simp add: run_cat_dog)

text \<open>
  Claim C2. Every entry \<open>((word, orientation), ps)\<close> of \<^verbatim>\<open>final_words\<close> has one
  coordinate for each letter, all of them inside \<open>[0, dim) \<times> [0, dim)\<close> for
  \<open>dim = int(sqrt(grid_square_number))\<close>; for the orientations \<^verbatim>\<open>HL\<close> and \<^verbatim>\<open>HR\<close> the
  \<open>k\<close>-th coordinate is the first one moved \<open>k\<close> cells along \<open>x\<close>, for \<^verbatim>\<open>VU\<close> and
  \<^verbatim>\<open>VD\<close> it is the first one moved \<open>k\<close> cells along \<open>y\<close>, and there is no other
  orientation.
\<close>

theorem placement_shape:
  assumes "Words_init rnd word_list grid_square_number i = Some (Inr (final_words, i'))"
    and "((word, orientation), ps) \<in> set final_words"
  shows "length ps = length word
     \<and> (\<forall>p\<in>set ps. 0 \<le> fst p \<and> fst p < int (isqrt grid_square_number)
                    \<and> 0 \<le> snd p \<and> snd p < int (isqrt grid_square_number))
     \<and> (orientation = ''HL'' \<or> orientation = ''HR'' \<or> orientation = ''VU'' \<or> orientation = ''VD'')
     \<and> (orientation = ''HL'' \<or> orientation = ''HR'' \<longrightarrow>
           (\<forall>k<length ps. ps ! k = (fst (ps ! 0) + int k, snd (ps ! 0))))
     \<and> (orientation = ''VU'' \<or> orientation = ''VD'' \<longrightarrow>
           (\<forall>k<length ps. ps ! k = (fst (ps ! 0), snd (ps ! 0) + int k)))"
proof -
  from Words_init_entry [OF assms] obtain j j' where
    o: "orientation \<in> set ORIENTATIONS"
    and s: "select_random_pos rnd orientation (int (isqrt grid_square_number)) (length word) j = Inr (ps, j')"
    by blast
  from o have "orientation = ''HL'' \<or> orientation = ''HR'' \<or> orientation = ''VU'' \<or> orientation = ''VD''"
    by (auto simp: ORIENTATIONS_def)
  with select_random_pos_geometry [OF o s] show ?thesis by blast
qed

theorem placement_shape_witness:
  "Words_init (draws [0, 2, 1, 0, 0, 0, 3, 0]) [''CAT'', ''DOG''] 16 0 =
     Some (Inr ([((''CAT'', ''HL''), [(0, 1), (1, 1), (2, 1)]),
                 ((''DOG'', ''VU''), [(3, 0), (3, 1), (3, 2)])], 8))
   \<and> length [(3, 0), (3, 1), (3, 2 :: int)] = length ''DOG''
   \<and> list_all (\<lambda>p. 0 \<le> fst p \<and> fst p < (4 :: int) \<and> 0 \<le> snd p \<and> snd p < (4 :: int))
        [(3, 0), (3, 1), (3, 2)]
   \<and> [(3, 0), (3, 1), (3, 2 :: int)] ! 2 = (fst ([(3, 0), (3, 1), (3, 2)] ! 0),
                                              snd ([(3, 0), (3, 1), (3, 2)] ! 0) + int 2)"
  using placement_shape [OF run_cat_dog, of "''DOG''" "''VU''" "[(3, 0), (3, 1), (3, 2)]"]
  by (simp add: run_cat_dog isqrt_16)

lemma run_duplicate:
  "Words_init (draws [0, 1, 1, 0]) [''AB'', ''AB''] 4 0 =
     Some (Inr ([((''AB'', ''HR''), [(0, 1), (1, 1)])], 4))"
proof -
  let ?r = "draws [0, 1, 1, 0]"
  have o: "select_orientation ?r [''AB'', ''AB''] 0 = Inr ([(''AB'', ''HR'')], 2)"
    by (simp add: select_orientation_def choice_def ORIENTATIONS_def draws_def)
  have c: "select_random_pos ?r ''HR'' 2 (length ''AB'') 2 = Inr ([(0, 1), (1, 1)], 4)"
    by (simp add: select_random_pos_def randrange_def draws_def)
  have r1: "retry ?r ''HR'' 2 (length ''AB'') {} [(0, 1), (1, 1)] 4 = Some (Inr ([(0, 1), (1, 1)], 4))"
    by (rule retry_free) simp
  show ?thesis
    by (simp only: Words_init_def o select_pos_def isqrt_4 of_nat_numeral select_pos_loop.simps
          c r1 sum.case prod.case option.case AList.update.simps)
qed

text \<open>
  Claim C10. A word that occurs several times in the word list is one key of the
  dictionary returned by \<^verbatim>\<open>__select_orientation\<close>, whose keys are exactly the keys of
  \<^verbatim>\<open>final_words\<close>: the final mapping has one entry for each distinct word string,
  hence one orientation and one coordinate list for it.
\<close>

theorem duplicate_words_collapse:
  assumes "Words_init rnd word_list grid_square_number i = Some (Inr (final_words, i'))"
  shows "(\<exists>d. select_orientation rnd word_list i = Inr (d, i + length word_list)
              \<and> distinct (map fst d) \<and> set (map fst d) = set word_list
              \<and> map fst final_words = d)
       \<and> distinct (map (fst \<circ> fst) final_words)
       \<and> set (map (fst \<circ> fst) final_words) = set word_list
       \<and> length final_words = card (set word_list)"
proof -
  from select_orientation_props [of rnd word_list i] obtain d where
    d: "select_orientation rnd word_list i = Inr (d, i + length word_list)"
      "distinct (map fst d)" "fst ` set d = set word_list"
    by blast
  with assms have sp: "select_pos rnd d grid_square_number (i + length word_list) = Some (Inr (final_words, i'))"
    by (simp add: Words_init_def)
  have "distinct d" using d(2) by (rule distinct_map [THEN iffD1, THEN conjunct1])
  from select_pos_inv [OF sp this] have keys: "map fst final_words = d" by simp
  from Words_init_inv [OF assms] have dist: "distinct (map (fst \<circ> fst) final_words)"
    and st: "(fst \<circ> fst) ` set final_words = set word_list" by simp_all
  have "length final_words = length (map (fst \<circ> fst) final_words)" by simp
  also have "\<dots> = card (set (map (fst \<circ> fst) final_words))"
    using dist by (rule distinct_card [symmetric])
  also have "\<dots> = card (set word_list)" using st by simp
  finally have "length final_words = card (set word_list)" .
  with d keys dist st show ?thesis by auto
qed

theorem duplicate_words_collapse_witness:
  "Words_init (draws [0, 1, 1, 0]) [''AB'', ''AB''] 4 0 =
     Some (Inr ([((''AB'', ''HR''), [(0, 1), (1, 1)])], 4))
   \<and> length [((''AB'', ''HR''), [(0 :: int, 1 :: int), (1, 1)])] = card (set [''AB'', ''AB''])"
  using duplicate_words_collapse [OF run_duplicate] by (simp add: run_duplicate)

subsection \<open>The range and the distribution of a horizontal candidate\<close>

lemma card_mod_eq:
  fixes d N v :: int
  assumes d: "0 < d" and dv: "d dvd N" and N: "0 \<le> N" and v: "0 \<le> v" "v < d"
  shows "card {a \<in> {0..<N}. a mod d = v} = nat (N div d)"
proof -
  let ?m = "N div d"
  have Nm: "N = ?m * d" using dv by simp
  have m0: "0 \<le> ?m" using N d by (simp add: pos_imp_zdiv_nonneg_iff)
  have "{a \<in> {0..<N}. a mod d = v} = (\<lambda>k. k * d + v) ` {0..<?m}"
  proof (intro set_eqI iffI)
    fix a assume "a \<in> {a \<in> {0..<N}. a mod d = v}"
    then have a: "0 \<le> a" "a < N" "a mod d = v" by simp_all
    have eq: "a = (a div d) * d + v" using a(3) by (metis div_mult_mod_eq)
    have "0 \<le> a div d" using a(1) d by (simp add: pos_imp_zdiv_nonneg_iff)
    moreover have "a div d < ?m"
    proof (rule ccontr)
      assume "\<not> a div d < ?m"
      then have "?m \<le> a div d" by simp
      then have "?m * d \<le> (a div d) * d" using d by (simp add: mult_right_mono)
      also have "\<dots> \<le> a" using eq v by linarith
      finally show False using a(2) Nm by simp
    qed
    ultimately show "a \<in> (\<lambda>k. k * d + v) ` {0..<?m}" using eq by auto
  next
    fix a assume "a \<in> (\<lambda>k. k * d + v) ` {0..<?m}"
    then obtain k where k: "0 \<le> k" "k < ?m" "a = k * d + v" by auto
    have "a mod d = v" using k(3) v d by simp
    moreover have "0 \<le> a" using k v d by simp
    moreover have "a < N"
    proof -
      have "k + 1 \<le> ?m" using k(2) by simp
      then have "(k + 1) * d \<le> ?m * d" using d by (simp only: mult_right_mono)
      then have "k * d + d \<le> N" using Nm by (simp add: algebra_simps)
      with v k(3) show ?thesis by linarith
    qed
    ultimately show "a \<in> {a \<in> {0..<N}. a mod d = v}" by simp
  qed
  moreover have "inj_on (\<lambda>k. k * d + v) {0..<?m}" using d by (auto simp: inj_on_def)
  ultimately have "card {a \<in> {0..<N}. a mod d = v} = card {0..<?m}"
    by (simp add: card_image)
  then show ?thesis by simp
qed

lemma draws_pair: "draws [a, b] 0 = a" "draws [a, b] (Suc 0) = b"
  by (simp_all add: draws_def)

lemma select_random_pos_H_run:
  assumes "orientation = ''HL'' \<or> orientation = ''HR''" and "0 < dim" and "int len \<le> dim"
  shows "select_random_pos rnd orientation dim len i
           = Inr (map (\<lambda>k. (rnd (Suc i) mod (dim - int len + 1) + int k, rnd i mod dim)) [0..<len],
                  Suc (Suc i))"
  using assms by (auto simp: select_random_pos_def randrange_def)

lemma horizontal_candidates_equally_often:
  assumes o: "orientation = ''HL'' \<or> orientation = ''HR''"
    and len: "0 < len" "int len \<le> dim"
    and N: "0 < N" "dim dvd N" "(dim - int len + 1) dvd N"
    and y: "0 \<le> y" "y < dim" and x: "0 \<le> x" "x \<le> dim - int len"
  shows "card {(a, b). a \<in> {0..<N} \<and> b \<in> {0..<N}
               \<and> select_random_pos (draws [a, b]) orientation dim len 0
                    = Inr (map (\<lambda>k. (x + int k, y)) [0..<len], 2)}
         = nat (N div dim) * nat (N div (dim - int len + 1))"
proof -
  let ?d2 = "dim - int len + 1"
  have dim: "0 < dim" using y by simp
  have d2: "0 < ?d2" using len by simp
  have run: "select_random_pos (draws [a, b]) orientation dim len 0
               = Inr (map (\<lambda>k. (b mod ?d2 + int k, a mod dim)) [0..<len], 2)" for a b
    using select_random_pos_H_run [OF o dim len(2), of "draws [a, b]" 0]
    by (simp add: draws_pair numeral_2_eq_2)
  have cand: "map (\<lambda>k. (x1 + int k, y1)) [0..<len] = map (\<lambda>k. (x + int k, y)) [0..<len]
                \<longleftrightarrow> x1 = x \<and> y1 = y" for x1 y1 :: int
  proof
    assume eq: "map (\<lambda>k. (x1 + int k, y1)) [0..<len] = map (\<lambda>k. (x + int k, y)) [0..<len]"
    from len(1) have "[0..<len] = 0 # [1..<len]" by (simp add: upt_conv_Cons)
    with eq show "x1 = x \<and> y1 = y" by simp
  qed simp
  have eqv: "select_random_pos (draws [a, b]) orientation dim len 0
                    = Inr (map (\<lambda>k. (x + int k, y)) [0..<len], 2)
               \<longleftrightarrow> a mod dim = y \<and> b mod ?d2 = x" for a b
    unfolding run sum.inject prod.inject cand by auto
  have "{(a, b). a \<in> {0..<N} \<and> b \<in> {0..<N}
               \<and> select_random_pos (draws [a, b]) orientation dim len 0
                    = Inr (map (\<lambda>k. (x + int k, y)) [0..<len], 2)}
        = {a \<in> {0..<N}. a mod dim = y} \<times> {b \<in> {0..<N}. b mod ?d2 = x}"
    by (auto simp: eqv)
  then have "card {(a, b). a \<in> {0..<N} \<and> b \<in> {0..<N}
               \<and> select_random_pos (draws [a, b]) orientation dim len 0
                    = Inr (map (\<lambda>k. (x + int k, y)) [0..<len], 2)}
        = card {a \<in> {0..<N}. a mod dim = y} * card {b \<in> {0..<N}. b mod ?d2 = x}"
    by (simp add: card_cartesian_product)
  also have "card {a \<in> {0..<N}. a mod dim = y} = nat (N div dim)"
    using dim N(2) N(1) y by (intro card_mod_eq) simp_all
  also have "card {b \<in> {0..<N}. b mod ?d2 = x} = nat (N div ?d2)"
    using d2 N(3) N(1) x by (intro card_mod_eq) simp_all
  finally show ?thesis .
qed

lemma run_flush_right:
  "select_random_pos (draws [1, 1]) ''HL'' 4 3 0 = Inr ([(1, 1), (2, 1), (3, 1)], 2)"
  by (simp add: select_random_pos_def randrange_def draws_def upt_3)

text \<open>
  Claim C4, as amended. For a horizontal orientation \<^verbatim>\<open>__select_random_pos\<close> draws
  \<open>y\<close> in \<open>[0, dim)\<close> and the starting \<open>x\<close> in \<open>[0, dim - len + 1)\<close>, so that
  \<open>x \<le> dim - len\<close>, and returns the coordinates \<open>(x + k, y)\<close> for \<open>k\<close> in
  \<open>[0, len)\<close>. Both draws are uniform: when the two raw draws range over \<open>[0, N)\<close>
  for a common multiple \<open>N\<close> of \<open>dim\<close> and \<open>dim - len + 1\<close>, every candidate with
  \<open>y\<close> in \<open>[0, dim)\<close> and \<open>x\<close> in \<open>[0, dim - len]\<close> is returned for the same number
  of pairs of raw draws.
\<close>

theorem horizontal_start_range:
  assumes "orientation = ''HL'' \<or> orientation = ''HR''"
  shows "(select_random_pos rnd orientation grid_dimension word_len i = Inr (positions, i') \<longrightarrow>
            0 \<le> rnd i mod grid_dimension \<and> rnd i mod grid_dimension < grid_dimension
          \<and> 0 \<le> rnd (Suc i) mod (grid_dimension - int word_len + 1)
          \<and> rnd (Suc i) mod (grid_dimension - int word_len + 1) \<le> grid_dimension - int word_len
          \<and> positions = map (\<lambda>k. (rnd (Suc i) mod (grid_dimension - int word_len + 1) + int k,
                                    rnd i mod grid_dimension)) [0..<word_len])
       \<and> (0 < word_len \<and> int word_len \<le> grid_dimension
            \<and> 0 < N \<and> grid_dimension dvd N \<and> (grid_dimension - int word_len + 1) dvd N
            \<and> 0 \<le> y \<and> y < grid_dimension \<and> 0 \<le> x \<and> x \<le> grid_dimension - int word_len \<longrightarrow>
            card {(a, b). a \<in> {0..<N} \<and> b \<in> {0..<N}
                   \<and> select_random_pos (draws [a, b]) orientation grid_dimension word_len 0
                        = Inr (map (\<lambda>k. (x + int k, y)) [0..<word_len], 2)}
              = nat (N div grid_dimension) * nat (N div (grid_dimension - int word_len + 1)))"
proof (intro conjI impI)
  assume run: "select_random_pos rnd orientation grid_dimension word_len i = Inr (positions, i')"
  from assms have h: "orientation \<noteq> []" "orientation ! 0 = CHR ''H''" by auto
  from select_random_pos_H [OF h run] have dim: "0 < grid_dimension" "int word_len \<le> grid_dimension"
    and ps: "positions = map (\<lambda>k. (rnd (Suc i) mod (grid_dimension - int word_len + 1) + int k,
                                 rnd i mod grid_dimension)) [0..<word_len]" by simp_all
  have "rnd (Suc i) mod (grid_dimension - int word_len + 1) < grid_dimension - int word_len + 1"
    using dim by (intro pos_mod_bound) simp
  with dim ps show "0 \<le> rnd i mod grid_dimension" "rnd i mod grid_dimension < grid_dimension"
    "0 \<le> rnd (Suc i) mod (grid_dimension - int word_len + 1)"
    "rnd (Suc i) mod (grid_dimension - int word_len + 1) \<le> grid_dimension - int word_len"
    "positions = map (\<lambda>k. (rnd (Suc i) mod (grid_dimension - int word_len + 1) + int k,
                                    rnd i mod grid_dimension)) [0..<word_len]"
    by simp_all
next
  assume a: "0 < word_len \<and> int word_len \<le> grid_dimension
            \<and> 0 < N \<and> grid_dimension dvd N \<and> (grid_dimension - int word_len + 1) dvd N
            \<and> 0 \<le> y \<and> y < grid_dimension \<and> 0 \<le> x \<and> x \<le> grid_dimension - int word_len"
  then show "card {(a, b). a \<in> {0..<N} \<and> b \<in> {0..<N}
                   \<and> select_random_pos (draws [a, b]) orientation grid_dimension word_len 0
                        = Inr (map (\<lambda>k. (x + int k, y)) [0..<word_len], 2)}
              = nat (N div grid_dimension) * nat (N div (grid_dimension - int word_len + 1))"
    by (intro horizontal_candidates_equally_often [OF assms]) simp_all
qed

theorem horizontal_start_range_witness:
  "select_random_pos (draws [1, 1]) ''HL'' 4 3 0 = Inr ([(1, 1), (2, 1), (3, 1)], 2)
   \<and> draws [1, 1] (Suc 0) mod (4 - int 3 + 1) \<le> 4 - int 3
   \<and> card {(a, b). a \<in> {0..<4} \<and> b \<in> {0..<4}
           \<and> select_random_pos (draws [a, b]) ''HL'' 4 3 0 = Inr ([(1, 1), (2, 1), (3, 1)], 2)}
       = 2"
  using horizontal_start_range [where orientation = "''HL''" and rnd = "draws [1, 1]"
    and grid_dimension = 4 and word_len = 3 and i = 0 and positions = "[(1, 1), (2, 1), (3, 1)]"
    and i' = 2 and N = 4 and x = 1 and y = 1] run_flush_right
  by (simp add: upt_3)

text \<open>
  The starting \<open>x\<close> is not always strictly below \<open>dim - len\<close>: on a grid of dimension 4
  a word of three letters can start at \<open>x = 1 = dim - len\<close>.
\<close>

theorem horizontal_start_strict_counterexample:
  "select_random_pos (draws [1, 1]) ''HL'' 4 3 0 = Inr ([(1, 1), (2, 1), (3, 1)], 2)
   \<and> \<not> fst (hd [(1 :: int, 1 :: int), (2, 1), (3, 1)]) < 4 - int 3"
  by (simp add: run_flush_right)

subsection \<open>Grids with too few cells\<close>

lemma select_pos_loop_error:
  assumes "select_pos_loop rnd dim wl occ pd i = Some (Inl e)"
    and "snd ` set wl \<subseteq> set ORIENTATIONS"
  shows "e = ValueError \<and> (dim \<le> 0 \<or> (\<exists>w\<in>set wl. dim < int (length (fst w))))"
  using assms
proof (induction wl arbitrary: occ pd i)
  case Nil
  then show ?case by simp
next
  case (Cons w wl)
  obtain word ori where w: "w = (word, ori)" by (cases w)
  with Cons.prems(2) have ori: "ori \<in> set ORIENTATIONS" and rest: "snd ` set wl \<subseteq> set ORIENTATIONS"
    by auto
  show ?case
  proof (cases "select_random_pos rnd ori dim (length word) i")
    case (Inl e')
    with Cons.prems(1) w have "e' = e" by simp
    with select_random_pos_error [OF ori Inl] w show ?thesis by auto
  next
    case (Inr r)
    obtain ps1 i1 where r: "r = (ps1, i1)" by (cases r)
    show ?thesis
    proof (cases "retry rnd ori dim (length word) occ ps1 i1")
      case None
      with Cons.prems(1) w Inr r show ?thesis by simp
    next
      case (Some y)
      show ?thesis
      proof (cases y)
        case (Inl e')
        with Cons.prems(1) w Inr r Some have "e' = e" by simp
        with retry_result [OF Some] Inl obtain j where
          j: "select_random_pos rnd ori dim (length word) j = Inl e" by blast
        from select_random_pos_error [OF ori j] w show ?thesis by auto
      next
        case (Inr r2)
        obtain ps2 i2 where r2: "r2 = (ps2, i2)" by (cases r2)
        with Cons.prems(1) w \<open>select_random_pos rnd ori dim (length word) i = Inr r\<close> r Some Inr
        have "select_pos_loop rnd dim wl (occ \<union> set ps2)
                 (AList.update (word, ori) ps2 pd) i2 = Some (Inl e)" by simp
        from Cons.IH [OF this rest] show ?thesis by auto
      qed
    qed
  qed
qed

lemma Words_init_error:
  assumes "Words_init rnd word_list n i = Some (Inl e)"
  shows "e = ValueError \<and> (isqrt n = 0 \<or> (\<exists>w\<in>set word_list. isqrt n < length w))"
proof -
  from select_orientation_props [of rnd word_list i] obtain d where
    d: "select_orientation rnd word_list i = Inr (d, i + length word_list)"
      "fst ` set d = set word_list" "snd ` set d \<subseteq> set ORIENTATIONS"
    by blast
  with assms have "select_pos_loop rnd (int (isqrt n)) d {} [] (i + length word_list) = Some (Inl e)"
    by (simp add: Words_init_def select_pos_def)
  from select_pos_loop_error [OF this d(3)]
  have e: "e = ValueError" and c: "isqrt n = 0 \<or> (\<exists>w\<in>set d. isqrt n < length (fst w))"
    by auto
  from c d(2) have "isqrt n = 0 \<or> (\<exists>w\<in>set word_list. isqrt n < length w)" by force
  with e show ?thesis by simp
qed

lemma Words_init_capacity:
  assumes run: "Words_init rnd word_list n i = Some (Inr (pd, i'))"
  shows "(\<Sum>w\<in>set word_list. length w) \<le> isqrt n * isqrt n"
proof -
  let ?dim = "isqrt n"
  let ?grid = "{0..<int ?dim} \<times> {0..<int ?dim}"
  let ?A = "\<lambda>e :: (string \<times> string) \<times> coord list. set (snd e)"
  from Words_init_inv [OF run] have inv: "placement_inv rnd (int ?dim) pd (\<Union>e\<in>set pd. set (snd e))"
    and dist: "distinct (map (fst \<circ> fst) pd)" and st: "(fst \<circ> fst) ` set pd = set word_list"
    by simp_all
  have entry: "length (snd e) = length (fst (fst e)) \<and> distinct (snd e) \<and> set (snd e) \<subseteq> ?grid"
    if "e \<in> set pd" for e
  proof -
    obtain word ori ps where e: "e = ((word, ori), ps)" by (metis prod.collapse)
    from Words_init_entry [OF run that [unfolded e]] obtain j j' where
      o: "ori \<in> set ORIENTATIONS"
      and s: "select_random_pos rnd ori (int ?dim) (length word) j = Inr (ps, j')" by blast
    from select_random_pos_geometry [OF o s] show ?thesis unfolding e by auto
  qed
  have disj: "\<forall>e1\<in>set pd. \<forall>e2\<in>set pd. e1 \<noteq> e2 \<longrightarrow> ?A e1 \<inter> ?A e2 = {}"
    using inv unfolding placement_inv_def by blast
  have "card (\<Union>(?A ` set pd)) = (\<Sum>e\<in>set pd. card (?A e))"
    using disj by (intro card_UN_disjoint) auto
  also have "\<dots> = (\<Sum>e\<in>set pd. length (fst (fst e)))"
    by (rule sum.cong) (use entry in \<open>auto simp: distinct_card\<close>)
  also have "\<dots> = (\<Sum>w\<in>(fst \<circ> fst) ` set pd. length w)"
  proof -
    have "inj_on (fst \<circ> fst) (set pd)" using dist by (simp add: distinct_map)
    then show ?thesis by (simp add: sum.reindex comp_def)
  qed
  finally have eq: "card (\<Union>(?A ` set pd)) = (\<Sum>w\<in>set word_list. length w)" using st by simp
  have "\<Union>(?A ` set pd) \<subseteq> ?grid" using entry by blast
  then have "card (\<Union>(?A ` set pd)) \<le> card ?grid" by (intro card_mono) auto
  also have "card ?grid = ?dim * ?dim" by (simp add: card_cartesian_product)
  finally show ?thesis using eq by simp
qed

lemma retry_diverges:
  assumes all: "\<And>j. \<exists>ps j'. select_random_pos rnd ori dim len j = Inr (ps, j')
                           \<and> list_ex (\<lambda>p. p \<in> occ) ps"
    and hit: "list_ex (\<lambda>p. p \<in> occ) ps0"
  shows "retry rnd ori dim len occ ps0 i = None"
proof (cases "retry rnd ori dim len occ ps0 i")
  case None
  then show ?thesis .
next
  case (Some y)
  let ?P = "\<lambda>rnd' ori' dim' len' occ' ps (i :: nat) (y :: error + (coord list \<times> nat)).
      rnd' = rnd \<and> ori' = ori \<and> dim' = dim \<and> len' = len \<and> occ' = occ
        \<and> list_ex (\<lambda>p. p \<in> occ) ps \<longrightarrow> False"
  have "?P rnd ori dim len occ ps0 i y"
  proof (rule retry.raw_induct [where P = ?P, OF _ Some])
    fix f :: "rand \<Rightarrow> string \<Rightarrow> int \<Rightarrow> nat \<Rightarrow> coord set \<Rightarrow> coord list \<Rightarrow> nat
                \<Rightarrow> (error + (coord list \<times> nat)) option"
    fix rnd' ori' dim' len' occ' ps i y
    assume IH: "\<And>rnd' ori' dim' len' occ' ps i y. f rnd' ori' dim' len' occ' ps i = Some y
                  \<Longrightarrow> ?P rnd' ori' dim' len' occ' ps i y"
      and eq: "(if list_ex (\<lambda>pos. pos \<in> occ') ps then
                 (case select_random_pos rnd' ori' dim' len' i of
                    Inl e \<Rightarrow> Some (Inl e)
                  | Inr (positions', i') \<Rightarrow> f rnd' ori' dim' len' occ' positions' i')
                else Some (Inr (ps, i))) = Some y"
    show "?P rnd' ori' dim' len' occ' ps i y"
    proof (intro impI, elim conjE)
      assume p: "rnd' = rnd" "ori' = ori" "dim' = dim" "len' = len" "occ' = occ"
        and h: "list_ex (\<lambda>p. p \<in> occ) ps"
      from all [of i] obtain ps1 i1 where
        s: "select_random_pos rnd ori dim len i = Inr (ps1, i1)" and h1: "list_ex (\<lambda>p. p \<in> occ) ps1"
        by blast
      from eq p h s have "f rnd ori dim len occ ps1 i1 = Some y" by simp
      from IH [OF this] h1 show False by simp
    qed
  qed
  with hit show ?thesis by simp
qed

lemma run_overfull:
  "Words_init (draws []) [''A'', ''B''] 1 0 = None"
proof -
  let ?r = "draws []"
  have o: "select_orientation ?r [''A'', ''B''] 0 = Inr ([(''A'', ''HL''), (''B'', ''HL'')], 2)"
    by (simp add: select_orientation_def choice_def ORIENTATIONS_def draws_def)
  have s: "select_random_pos ?r ''HL'' 1 (Suc 0) j = Inr ([(0, 0)], Suc (Suc j))" for j
    by (simp add: select_random_pos_def randrange_def draws_def)
  have a: "select_random_pos ?r ''HL'' 1 (length ''A'') 2 = Inr ([(0, 0)], 4)"
    using s [of 2] by simp
  have b: "select_random_pos ?r ''HL'' 1 (length ''B'') 4 = Inr ([(0, 0)], 6)"
    using s [of 4] by simp
  have r1: "retry ?r ''HL'' 1 (length ''A'') {} [(0, 0)] 4 = Some (Inr ([(0, 0)], 4))"
    by (rule retry_free) simp
  have r2: "retry ?r ''HL'' 1 (length ''B'') ({} \<union> set [(0, 0)]) [(0, 0)] 6 = None"
    by (rule retry_diverges) (simp_all add: s)
  show ?thesis
    by (simp only: Words_init_def o select_pos_def isqrt_1 of_nat_1 select_pos_loop.simps
          a b r1 r2 sum.case prod.case option.case AList.update.simps)
qed

text \<open>
  Claim C5, as amended. When the distinct words of the list have more letters in total
  than the grid has cells, \<^verbatim>\<open>Words.__init__\<close> never returns a mapping: either the retry
  loop runs forever, or \<^verbatim>\<open>randrange\<close> raises \<^verbatim>\<open>ValueError\<close>, which happens only when
  some word is longer than the grid dimension; when every word fits the dimension the
  retry loop runs forever.
\<close>

theorem overfull_grid_never_completes:
  assumes "isqrt grid_square_number * isqrt grid_square_number < (\<Sum>w\<in>set word_list. length w)"
  shows "(Words_init rnd word_list grid_square_number i = None
            \<or> Words_init rnd word_list grid_square_number i = Some (Inl ValueError))
       \<and> (Words_init rnd word_list grid_square_number i = Some (Inl ValueError)
            \<longrightarrow> (\<exists>w\<in>set word_list. isqrt grid_square_number < length w))
       \<and> ((\<forall>w\<in>set word_list. length w \<le> isqrt grid_square_number)
            \<longrightarrow> Words_init rnd word_list grid_square_number i = None)"
proof -
  have no: "Words_init rnd word_list grid_square_number i \<noteq> Some (Inr r)" for r
    using Words_init_capacity [of rnd word_list grid_square_number i "fst r" "snd r"] assms by auto
  have err: "e = ValueError \<and> (\<exists>w\<in>set word_list. isqrt grid_square_number < length w)"
    if "Words_init rnd word_list grid_square_number i = Some (Inl e)" for e
  proof -
    from Words_init_error [OF that] have e: "e = ValueError"
      and c: "isqrt grid_square_number = 0 \<or> (\<exists>w\<in>set word_list. isqrt grid_square_number < length w)" by simp_all
    have "\<exists>w\<in>set word_list. 0 < length w"
    proof (rule ccontr)
      assume "\<not> (\<exists>w\<in>set word_list. 0 < length w)"
      then have "(\<Sum>w\<in>set word_list. length w) = 0" by simp
      with assms show False by simp
    qed
    with c e show ?thesis by auto
  qed
  show ?thesis
  proof (cases "Words_init rnd word_list grid_square_number i")
    case None
    then show ?thesis by simp
  next
    case (Some y)
    then show ?thesis using no err by (cases y) fastforce+
  qed
qed

theorem overfull_grid_never_completes_witness:
  "isqrt 1 * isqrt 1 < (\<Sum>w\<in>set [''A'', ''B'']. length w)
   \<and> list_all (\<lambda>w. length w \<le> isqrt 1) [''A'', ''B'']
   \<and> Words_init (draws []) [''A'', ''B''] 1 0 = None
   \<and> Words_init (draws []) [''A'', ''B''] 1 0 \<noteq> Some (Inl ValueError)"
  using overfull_grid_never_completes [of 1 "[''A'', ''B'']" "draws []" 0] isqrt_1
  by simp

text \<open>
  Two one-letter words on a grid of one cell: no error is raised, the second word is
  redrawn forever.
\<close>

theorem overfull_grid_no_error_counterexample:
  "isqrt 1 * isqrt 1 < (\<Sum>w\<in>set [''A'', ''B'']. length w)
   \<and> Words_init (draws []) [''A'', ''B''] 1 0 = None"
  using run_overfull isqrt_1 by simp

section \<open>The selection logic of the game loop\<close>

subsection \<open>Pointer positions and ticks\<close>

lemma convert_mouse_pos_div:
  "bw \<noteq> 0 \<Longrightarrow> bh \<noteq> 0 \<Longrightarrow>
     convert_mouse_pos_to_grid (px, py) (bw, bh) = Inr (px div bw, py div bh)"
  by (simp add: convert_mouse_pos_to_grid_def minus_mod_eq_div_mult)

lemma record_drag_eq:
  "record_drag (px, py) trace =
     Inr (sort (if (px div 50, py div 50) \<notin> set trace then trace @ [(px div 50, py div 50)]
                else trace))"
  by (simp add: record_drag_def block_size_def convert_mouse_pos_div)

lemma handle_events_None: "handle_events events drag = None \<longleftrightarrow> QUIT \<in> set events"
  by (induction events arbitrary: drag) auto

lemma tick_quit:
  "handle_events events (drag_event s) = None \<Longrightarrow> tick s events mouse_pos = ([], Exited)"
  by (simp add: tick_def)

lemma check_selection_drag: "check_selection True trace ws data = (ws, data)"
  by (simp add: check_selection_def)

lemma tick_dragging:
  assumes "handle_events events (drag_event s) = Some True"
  shows "tick s events (px, py) =
     (if words s = [] then [''Congrats''] else [],
      Running \<lparr>words = words s, alphabet_data = alphabet_data s,
        mouse_drag_pos =
          (let trace0 = (if drag_event s then mouse_drag_pos s else [])
           in sort (if (px div 50, py div 50) \<notin> set trace0
                    then trace0 @ [(px div 50, py div 50)] else trace0)),
        drag_event = True\<rparr>)"
  using assms by (simp add: tick_def record_drag_eq check_selection_drag Let_def)

lemma tick_released:
  assumes "handle_events events (drag_event s) = Some False"
  shows "tick s events mouse_pos =
     (let trace0 = (if drag_event s then mouse_drag_pos s else [])
      in case check_selection False trace0 (words s) (alphabet_data s) of
        (words', alphabet_data') \<Rightarrow>
          (if words' = [] then [''Congrats''] else [],
           Running \<lparr>words = words', alphabet_data = alphabet_data',
                    mouse_drag_pos = trace0, drag_event = False\<rparr>))"
  using assms by (simp add: tick_def Let_def)

lemma tick_drag:
  assumes "handle_events events (drag_event s) = Some True"
  shows "\<exists>out s'. tick s events (px, py) = (out, Running s')
           \<and> (px div fst block_size, py div snd block_size) \<in> set (mouse_drag_pos s')
           \<and> words s' = words s \<and> alphabet_data s' = alphabet_data s \<and> drag_event s'"
  by (simp add: tick_dragging [OF assms] block_size_def Let_def)

text \<open>
  Claim C9. For a positive block size \<^verbatim>\<open>convert_mouse_pos_to_grid\<close> returns the
  componentwise floor division of the pointer position by the block size, without
  clamping: a pointer left of, above, right of or below a grid of dimension \<open>dim\<close> gives a
  cell outside \<open>[0, dim) \<times> [0, dim)\<close>. And a tick that ends with \<^verbatim>\<open>drag_event\<close> set
  changes nothing but the selection trace, to which the cell under the pointer, whatever
  it is, is appended if it is not in it, before the trace is sorted.
\<close>

theorem convert_mouse_pos_unclamped:
  assumes "0 < bw" and "0 < bh"
  shows "convert_mouse_pos_to_grid (px, py) (bw, bh) = Inr (px div bw, py div bh)
       \<and> (px < 0 \<or> dim * bw \<le> px \<or> py < 0 \<or> dim * bh \<le> py \<longrightarrow>
            \<not> (0 \<le> px div bw \<and> px div bw < dim \<and> 0 \<le> py div bh \<and> py div bh < dim))
       \<and> (handle_events events (drag_event s) = Some True \<longrightarrow>
            tick s events (px, py) =
              (if words s = [] then [''Congrats''] else [],
               Running (s\<lparr>mouse_drag_pos :=
                          sort (if (px div fst block_size, py div snd block_size)
                                     \<notin> set (if drag_event s then mouse_drag_pos s else [])
                                then (if drag_event s then mouse_drag_pos s else [])
                                       @ [(px div fst block_size, py div snd block_size)]
                                else (if drag_event s then mouse_drag_pos s else [])),
                        drag_event := True\<rparr>)))"
proof (intro conjI impI)
  show "convert_mouse_pos_to_grid (px, py) (bw, bh) = Inr (px div bw, py div bh)"
    using assms by (simp add: convert_mouse_pos_div)
next
  assume out: "px < 0 \<or> dim * bw \<le> px \<or> py < 0 \<or> dim * bh \<le> py"
  have x1: "px div bw < 0" if "px < 0" using that assms(1) by (simp add: div_neg_pos_less0)
  have y1: "py div bh < 0" if "py < 0" using that assms(2) by (simp add: div_neg_pos_less0)
  have x2: "dim \<le> px div bw" if "dim * bw \<le> px"
  proof -
    from that assms(1) have "dim * bw div bw \<le> px div bw" by (rule zdiv_mono1)
    with assms(1) show ?thesis by simp
  qed
  have y2: "dim \<le> py div bh" if "dim * bh \<le> py"
  proof -
    from that assms(2) have "dim * bh div bh \<le> py div bh" by (rule zdiv_mono1)
    with assms(2) show ?thesis by simp
  qed
  from out x1 x2 y1 y2 show "\<not> (0 \<le> px div bw \<and> px div bw < dim \<and> 0 \<le> py div bh \<and> py div bh < dim)"
    by fastforce
next
  assume "handle_events events (drag_event s) = Some True"
  from tick_dragging [OF this, of px py]
  show "tick s events (px, py) =
              (if words s = [] then [''Congrats''] else [],
               Running (s\<lparr>mouse_drag_pos :=
                          sort (if (px div fst block_size, py div snd block_size)
                                     \<notin> set (if drag_event s then mouse_drag_pos s else [])
                                then (if drag_event s then mouse_drag_pos s else [])
                                       @ [(px div fst block_size, py div snd block_size)]
                                else (if drag_event s then mouse_drag_pos s else [])),
                        drag_event := True\<rparr>))"
    by (simp add: Let_def block_size_def)
qed

theorem convert_mouse_pos_unclamped_witness:
  "(0 :: int) < 50
   \<and> convert_mouse_pos_to_grid (700, 100) (50, 50) = Inr (14, 2)
   \<and> \<not> ((14 :: int) < 12)
   \<and> handle_events [OTHER] True = Some True
   \<and> tick \<lparr>words = [((''CAT'', ''HL''), [(0, 1), (1, 1), (2, 1)])],
            alphabet_data = [(CHR ''C'', (0, 50)), (CHR ''A'', (50, 50)), (CHR ''T'', (100, 50))],
            mouse_drag_pos = [(0, 1), (1, 1)], drag_event = True\<rparr> [OTHER] (700, 100)
       = ([], Running \<lparr>words = [((''CAT'', ''HL''), [(0, 1), (1, 1), (2, 1)])],
            alphabet_data = [(CHR ''C'', (0, 50)), (CHR ''A'', (50, 50)), (CHR ''T'', (100, 50))],
            mouse_drag_pos = [(0, 1), (1, 1), (14, 2)], drag_event = True\<rparr>)"
  using convert_mouse_pos_unclamped [where bw = 50 and bh = 50 and px = 700 and py = 100
    and dim = 12 and events = "[OTHER]" and s =
    "\<lparr>words = [((''CAT'', ''HL''), [(0, 1), (1, 1), (2, 1)])],
            alphabet_data = [(CHR ''C'', (0, 50)), (CHR ''A'', (50, 50)), (CHR ''T'', (100, 50))],
            mouse_drag_pos = [(0, 1), (1, 1)], drag_event = True\<rparr>"]
  by (simp add: block_size_def)

subsection \<open>A drag that matches no word\<close>

lemma list_ex_eq_iff: "list_ex (\<lambda>word_data. trace = word_data) (map snd ws) \<longleftrightarrow> trace \<in> snd ` set ws"
  by (auto simp: list_ex_iff)

lemma tick_reset:
  "\<not> drag_event s \<Longrightarrow> tick s events mouse_pos = tick (s\<lparr>mouse_drag_pos := []\<rparr>) events mouse_pos"
  by (simp add: tick_def cong: option.case_cong sum.case_cong)

text \<open>
  In a tick whose events leave \<^verbatim>\<open>drag_event\<close> unset, when the selection trace is not
  the coordinate list of any active word, the loop goes on with the same \<^verbatim>\<open>words\<close>
  and the same \<^verbatim>\<open>alphabet_data\<close>, and the next tick behaves as if the trace were
  empty.
\<close>

lemma tick_mismatched_release:
  assumes "handle_events events (drag_event s) = Some False"
    and "mouse_drag_pos s \<notin> snd ` set (words s)"
  shows "\<exists>out s'. tick s events mouse_pos = (out, Running s')
           \<and> words s' = words s \<and> alphabet_data s' = alphabet_data s \<and> \<not> drag_event s'
           \<and> (\<forall>events' mouse_pos'. tick s' events' mouse_pos'
                  = tick (s'\<lparr>mouse_drag_pos := []\<rparr>) events' mouse_pos')"
proof -
  let ?trace = "if drag_event s then mouse_drag_pos s else []"
  have c: "check_selection False ?trace (words s) (alphabet_data s) = (words s, alphabet_data s)"
    using assms(2) by (simp add: check_selection_def list_ex_eq_iff)
  let ?s' = "\<lparr>words = words s, alphabet_data = alphabet_data s,
               mouse_drag_pos = ?trace, drag_event = False\<rparr> :: 'a game"
  have t: "tick s events mouse_pos = (if words s = [] then [''Congrats''] else [], Running ?s')"
    using tick_released [OF assms(1), of mouse_pos] c by (simp add: Let_def)
  have "\<not> drag_event ?s'" by simp
  then have "tick ?s' events' mouse_pos' = tick (?s'\<lparr>mouse_drag_pos := []\<rparr>) events' mouse_pos'"
    for events' mouse_pos' by (rule tick_reset)
  with t show ?thesis by (intro exI [of _ "if words s = [] then [''Congrats''] else []"] exI [of _ ?s']) simp
qed

text \<open>
  Claim C8 says that whenever a drag ends on a trace that is not the coordinate list of
  an active word, nothing changes and the trace is discarded. The loop looks at
  \<^verbatim>\<open>drag_event\<close> only after all the events of a tick: when the button is released and
  pressed again within one tick, the trace of the drag that ended is not discarded but
  carried into the next drag. Here the drag over the cell \<open>(5, 5)\<close> ends and the next
  one starts on the cell \<open>(6, 6)\<close> with the trace \<open>[(5, 5), (6, 6)]\<close>.
\<close>

theorem drag_end_in_one_batch_keeps_trace:
  "tick \<lparr>words = [((''CAT'', ''HL''), [(0, 1), (1, 1), (2, 1)])],
          alphabet_data = [(CHR ''C'', (0, 50)), (CHR ''A'', (50, 50)), (CHR ''T'', (100, 50))],
          mouse_drag_pos = [(5, 5)], drag_event = True\<rparr>
       [MOUSEBUTTONUP, MOUSEBUTTONDOWN] (300, 300)
     = ([], Running \<lparr>words = [((''CAT'', ''HL''), [(0, 1), (1, 1), (2, 1)])],
          alphabet_data = [(CHR ''C'', (0, 50)), (CHR ''A'', (50, 50)), (CHR ''T'', (100, 50))],
          mouse_drag_pos = [(5, 5), (6, 6)], drag_event = True\<rparr>)"
  by (simp add: tick_def record_drag_eq check_selection_def)

subsection \<open>After the last word\<close>

lemma tick_solved:
  assumes "words s = []"
  shows "tick s events mouse_pos = ([], Exited) \<and> QUIT \<in> set events
       \<or> (\<exists>s'. tick s events mouse_pos = ([''Congrats''], Running s')
              \<and> words s' = [] \<and> alphabet_data s' = alphabet_data s) \<and> QUIT \<notin> set events"
proof (cases "handle_events events (drag_event s)")
  case None
  from tick_quit [OF None] None show ?thesis by (simp add: handle_events_None)
next
  case (Some drag)
  then have q: "QUIT \<notin> set events" using handle_events_None [of events "drag_event s"] by simp
  obtain px py where mp: "mouse_pos = (px, py)" by (cases mouse_pos)
  show ?thesis
  proof (cases drag)
    case True
    with Some have "handle_events events (drag_event s) = Some True" by simp
    from tick_dragging [OF this] assms q mp show ?thesis by (simp add: Let_def)
  next
    case False
    with Some have "handle_events events (drag_event s) = Some False" by simp
    from tick_released [OF this] assms q show ?thesis by (simp add: check_selection_def Let_def)
  qed
qed

lemma tick_prints:
  assumes "tick s events mouse_pos = (out, Running s')"
  shows "out = (if words s' = [] then [''Congrats''] else [])"
proof (cases "handle_events events (drag_event s)")
  case None
  from tick_quit [OF None] assms show ?thesis by simp
next
  case (Some drag)
  obtain px py where mp: "mouse_pos = (px, py)" by (cases mouse_pos)
  show ?thesis
  proof (cases drag)
    case True
    with Some have "handle_events events (drag_event s) = Some True" by simp
    from tick_dragging [OF this, of px py] assms mp show ?thesis by auto
  next
    case False
    with Some have "handle_events events (drag_event s) = Some False" by simp
    from tick_released [OF this, of mouse_pos] assms show ?thesis
      by (auto simp: Let_def split: prod.splits)
  qed
qed

lemma main_loop_solved:
  assumes "words s = []" and "list_all (\<lambda>inp. QUIT \<notin> set (fst inp)) inputs"
  shows "\<exists>s'. main_loop s inputs = (replicate (length inputs) ''Congrats'', Running s')
           \<and> words s' = [] \<and> alphabet_data s' = alphabet_data s"
  using assms
proof (induction inputs arbitrary: s)
  case Nil
  then show ?case by simp
next
  case (Cons inp inputs)
  obtain events mouse_pos where inp: "inp = (events, mouse_pos)" by (cases inp)
  with Cons.prems(2) have q: "QUIT \<notin> set events"
    and rest: "list_all (\<lambda>inp. QUIT \<notin> set (fst inp)) inputs" by simp_all
  from tick_solved [OF Cons.prems(1), of events mouse_pos] q obtain s1 where
    t: "tick s events mouse_pos = ([''Congrats''], Running s1)"
    and s1: "words s1 = []" "alphabet_data s1 = alphabet_data s" by auto
  from Cons.IH [OF s1(1) rest] obtain s' where
    "main_loop s1 inputs = (replicate (length inputs) ''Congrats'', Running s')"
    "words s' = []" "alphabet_data s' = alphabet_data s1" by blast
  with t s1 inp show ?case by simp
qed

lemma pop_matching_single:
  "pop_matching (0, 0) [(c, (0, 0))] 0 = []"
  by (simp add: pop_matching.simps [of _ _ 0] pop_matching.simps [of _ "[]"] block_size_def)

text \<open>
  Claim C6, as amended. Every tick prints \<^verbatim>\<open>Congrats\<close> exactly when \<^verbatim>\<open>words\<close> is
  empty after it, so the tick that solves the last word reports completion, and so does
  every later tick that does not quit: a session of \<open>n\<close> more ticks prints it \<open>n\<close> more
  times. And no later drag matches: \<^verbatim>\<open>words\<close> stays empty and \<^verbatim>\<open>alphabet_data\<close> is
  unchanged.
\<close>

theorem completion_reported_every_tick:
  assumes "tick s events mouse_pos = (out, Running s')"
    and "list_all (\<lambda>inp. QUIT \<notin> set (fst inp)) inputs"
  shows "out = (if words s' = [] then [''Congrats''] else [])
       \<and> (words s' = [] \<longrightarrow>
            (\<exists>s''. main_loop s' inputs = (replicate (length inputs) ''Congrats'', Running s'')
                \<and> words s'' = [] \<and> alphabet_data s'' = alphabet_data s'))"
  using tick_prints [OF assms(1)] main_loop_solved [OF _ assms(2), of s'] by blast

theorem completion_reported_every_tick_witness:
  "tick \<lparr>words = [((''A'', ''HL''), [(0, 0)])], alphabet_data = [(CHR ''A'', (0, 0))],
          mouse_drag_pos = [(0, 0)], drag_event = True\<rparr> [MOUSEBUTTONUP] (10, 10)
     = ([''Congrats''],
        Running \<lparr>words = [], alphabet_data = [], mouse_drag_pos = [(0, 0)], drag_event = False\<rparr>)
   \<and> main_loop \<lparr>words = [], alphabet_data = [] :: (char \<times> coord) list,
                 mouse_drag_pos = [(0, 0)], drag_event = False\<rparr>
         [([], (10, 10)), ([MOUSEBUTTONDOWN], (10, 10))]
     = ([''Congrats'', ''Congrats''],
        Running \<lparr>words = [], alphabet_data = [], mouse_drag_pos = [(0, 0)], drag_event = True\<rparr>)"
proof -
  have t: "tick \<lparr>words = [((''A'', ''HL''), [(0, 0)])], alphabet_data = [(CHR ''A'', (0, 0))],
          mouse_drag_pos = [(0, 0)], drag_event = True\<rparr> [MOUSEBUTTONUP] (10, 10)
     = ([''Congrats''],
        Running \<lparr>words = [], alphabet_data = [], mouse_drag_pos = [(0, 0)], drag_event = False\<rparr>)"
    by (simp add: tick_def check_selection_def pop_matching_single)
  from completion_reported_every_tick [OF t, of "[([], (10, 10)), ([MOUSEBUTTONDOWN], (10, 10))]"] t
  show ?thesis by (simp add: tick_def record_drag_eq check_selection_def)
qed

text \<open>
  A session of three ticks on a puzzle of one word: the word is solved in the second
  tick, and completion is printed in the second and in the third.
\<close>

theorem completion_reported_twice_counterexample:
  "fst (main_loop \<lparr>words = [((''A'', ''HL''), [(0, 0)])], alphabet_data = [(CHR ''A'', (0, 0))],
                    mouse_drag_pos = [], drag_event = False\<rparr>
          [([MOUSEBUTTONDOWN], (10, 10)), ([MOUSEBUTTONUP], (10, 10)), ([], (10, 10))])
     = [''Congrats'', ''Congrats'']"
  by (simp add: tick_def record_drag_eq check_selection_def pop_matching_single)

subsection \<open>A drag that matches a word\<close>

lemma filter_no_hit:
  "mp \<notin> tile_cell ` set xs \<Longrightarrow> filter (\<lambda>t. tile_cell t \<noteq> mp) xs = xs"
  by (induction xs) auto

lemma pop_matching_filter:
  assumes "distinct (map tile_cell data)" and "mp \<notin> tile_cell ` set (take i data)"
  shows "pop_matching mp data i = filter (\<lambda>t. tile_cell t \<noteq> mp) data"
  using assms
proof (induction mp data i rule: pop_matching.induct)
  case (1 mp data i)
  show ?case
  proof (cases "i < length data")
    case False
    then have "take i data = data" by simp
    with "1.prems"(2) have "filter (\<lambda>t. tile_cell t \<noteq> mp) data = data"
      by (intro filter_no_hit) simp
    with False show ?thesis by (simp add: pop_matching.simps [of mp data i])
  next
    case True
    then have split: "data = take i data @ data ! i # drop (Suc i) data"
      by (simp add: id_take_nth_drop)
    show ?thesis
    proof (cases "mp = tile_cell (data ! i)")
      case hit: True
      let ?data' = "take i data @ drop (Suc i) data"
      have d: "distinct (map tile_cell (take i data) @ tile_cell (data ! i) # map tile_cell (drop (Suc i) data))"
        using "1.prems"(1) by (subst (asm) split) simp
      then have none: "mp \<notin> tile_cell ` set ?data'" using hit by auto
      have d': "distinct (map tile_cell ?data')" using d by auto
      have "mp \<notin> tile_cell ` set (take (Suc i) ?data')"
        using none set_take_subset [of "Suc i" ?data'] by blast
      have hit': "mp = (fst (snd (data ! i)) div fst block_size,
                        snd (snd (data ! i)) div snd block_size)"
        using hit by (simp add: tile_cell_def)
      have step: "pop_matching mp data i = pop_matching mp ?data' (Suc i)"
        using True hit' by (subst pop_matching.simps) simp
      have "pop_matching mp ?data' (Suc i) = filter (\<lambda>t. tile_cell t \<noteq> mp) ?data'"
        using True hit' d' \<open>mp \<notin> tile_cell ` set (take (Suc i) ?data')\<close> by (rule "1.IH"(1))
      also have "\<dots> = ?data'" using none by (rule filter_no_hit)
      also have "?data' = filter (\<lambda>t. tile_cell t \<noteq> mp) data"
      proof -
        have "filter (\<lambda>t. tile_cell t \<noteq> mp) data
              = filter (\<lambda>t. tile_cell t \<noteq> mp) (take i data @ data ! i # drop (Suc i) data)"
          using split by simp
        also have "\<dots> = filter (\<lambda>t. tile_cell t \<noteq> mp) ?data'" using hit by simp
        also have "\<dots> = ?data'" using none by (rule filter_no_hit)
        finally show ?thesis by simp
      qed
      finally show ?thesis using step by simp
    next
      case miss: False
      have "take (Suc i) data = take i data @ [data ! i]"
        using True by (simp add: take_Suc_conv_app_nth)
      with miss "1.prems"(2) have "mp \<notin> tile_cell ` set (take (Suc i) data)" by auto
      then have nt: "mp \<notin> tile_cell ` set (take (Suc i) data)" .
      have miss': "mp \<noteq> (fst (snd (data ! i)) div fst block_size,
                         snd (snd (data ! i)) div snd block_size)"
        using miss by (simp add: tile_cell_def)
      have step: "pop_matching mp data i = pop_matching mp data (Suc i)"
        using True miss' by (subst pop_matching.simps) simp
      have "pop_matching mp data (Suc i) = filter (\<lambda>t. tile_cell t \<noteq> mp) data"
        using True miss' "1.prems"(1) nt by (rule "1.IH"(2))
      with step show ?thesis by simp
    qed
  qed
qed

lemma fold_pop_matching_filter:
  assumes "distinct (map tile_cell data)"
  shows "fold (\<lambda>mouse_pos data. pop_matching mouse_pos data 0) trace data
           = filter (\<lambda>t. tile_cell t \<notin> set trace) data"
  using assms
proof (induction trace arbitrary: data)
  case Nil
  then show ?case by simp
next
  case (Cons mp trace)
  have p: "pop_matching mp data 0 = filter (\<lambda>t. tile_cell t \<noteq> mp) data"
    using Cons.prems by (rule pop_matching_filter) simp
  have "distinct (map tile_cell (filter (\<lambda>t. tile_cell t \<noteq> mp) data))"
    using Cons.prems by (rule distinct_map_filter)
  from Cons.IH [OF this] p show ?case by (simp add: conj_commute)
qed

lemma filter_matched_word:
  assumes d: "distinct (map fst ws)"
    and dj: "\<forall>e1\<in>set ws. \<forall>e2\<in>set ws. e1 \<noteq> e2 \<longrightarrow> set (snd e1) \<inter> set (snd e2) = {}"
    and m: "(k, trace) \<in> set ws" and ne: "trace \<noteq> []"
  shows "filter (\<lambda>(word_data, pos). pos \<noteq> trace) ws = remove1 (k, trace) ws
       \<and> Suc (length (remove1 (k, trace) ws)) = length ws
       \<and> set (remove1 (k, trace) ws) = set ws - {(k, trace)}"
proof -
  have dw: "distinct ws" using d by (rule distinct_map [THEN iffD1, THEN conjunct1])
  have "snd e \<noteq> trace \<longleftrightarrow> e \<noteq> (k, trace)" if "e \<in> set ws" for e
  proof
    assume "snd e \<noteq> trace" then show "e \<noteq> (k, trace)" by auto
  next
    assume "e \<noteq> (k, trace)"
    with dj that m have "set (snd e) \<inter> set trace = {}" by fastforce
    with ne show "snd e \<noteq> trace" by auto
  qed
  then have "filter (\<lambda>(word_data, pos). pos \<noteq> trace) ws = filter (\<lambda>e. e \<noteq> (k, trace)) ws"
    by (intro filter_cong) (auto simp: case_prod_unfold)
  also have "\<dots> = removeAll (k, trace) ws" by (simp add: removeAll_filter_not_eq eq_commute)
  also have "\<dots> = remove1 (k, trace) ws" using dw by (simp add: distinct_remove1_removeAll)
  finally have f: "filter (\<lambda>(word_data, pos). pos \<noteq> trace) ws = remove1 (k, trace) ws" .
  have "Suc (length (remove1 (k, trace) ws)) = length ws"
    using m by (simp add: length_remove1) (metis length_pos_if_in_set Suc_pred)
  moreover have "set (remove1 (k, trace) ws) = set ws - {(k, trace)}"
    using dw by (rule set_remove1_eq)
  ultimately show ?thesis using f by simp
qed

subsection \<open>The invariant holds throughout a session\<close>

lemma tick_game_inv:
  assumes inv: "game_inv s" and t: "tick s events mouse_pos = (out, Running s')"
  shows "game_inv s'"
proof (cases "handle_events events (drag_event s)")
  case None
  from tick_quit [OF None] t show ?thesis by simp
next
  case (Some drag)
  obtain px py where mp: "mouse_pos = (px, py)" by (cases mouse_pos)
  show ?thesis
  proof (cases drag)
    case True
    with Some have h: "handle_events events (drag_event s) = Some True" by simp
    let ?t0 = "if drag_event s then mouse_drag_pos s else []"
    let ?tr = "sort (if (px div 50, py div 50) \<notin> set ?t0 then ?t0 @ [(px div 50, py div 50)] else ?t0)"
    have "(px div 50, py div 50) \<in> set ?tr" by simp
    then have "?tr \<noteq> []" by (metis empty_iff empty_set)
    from tick_dragging [OF h, of px py] t mp
    have s': "s' = \<lparr>words = words s, alphabet_data = alphabet_data s,
                     mouse_drag_pos = ?tr, drag_event = True\<rparr>"
      by (simp add: Let_def)
    from inv have "distinct (map fst (words s))"
      and "\<forall>e1\<in>set (words s). \<forall>e2\<in>set (words s). e1 \<noteq> e2 \<longrightarrow> set (snd e1) \<inter> set (snd e2) = {}"
      and "distinct (map tile_cell (alphabet_data s))"
      by (simp_all add: game_inv_def)
    with \<open>?tr \<noteq> []\<close> show ?thesis unfolding s' game_inv_def by simp
  next
    case False
    with Some have h: "handle_events events (drag_event s) = Some False" by simp
    let ?t0 = "if drag_event s then mouse_drag_pos s else []"
    from inv have d: "distinct (map fst (words s))"
      and dj: "\<forall>e1\<in>set (words s). \<forall>e2\<in>set (words s). e1 \<noteq> e2 \<longrightarrow> set (snd e1) \<inter> set (snd e2) = {}"
      and dt: "distinct (map tile_cell (alphabet_data s))"
      by (simp_all add: game_inv_def)
    obtain ws' data' where c: "check_selection False ?t0 (words s) (alphabet_data s) = (ws', data')"
      by (cases "check_selection False ?t0 (words s) (alphabet_data s)")
    have sub: "ws' = words s \<and> data' = alphabet_data s
       \<or> ws' = filter (\<lambda>(word_data, pos). pos \<noteq> ?t0) (words s)
          \<and> data' = filter (\<lambda>t. tile_cell t \<notin> set ?t0) (alphabet_data s)"
      using c fold_pop_matching_filter [OF dt, of ?t0]
      by (auto simp: check_selection_def split: if_splits)
    have d': "distinct (map fst ws')" using sub d by (auto simp: distinct_map_filter)
    have dj': "\<forall>e1\<in>set ws'. \<forall>e2\<in>set ws'. e1 \<noteq> e2 \<longrightarrow> set (snd e1) \<inter> set (snd e2) = {}"
    proof (intro ballI impI)
      fix e1 e2
      assume e: "e1 \<in> set ws'" "e2 \<in> set ws'" "e1 \<noteq> e2"
      have "set ws' \<subseteq> set (words s)" using sub by auto
      with e have "e1 \<in> set (words s)" "e2 \<in> set (words s)" by auto
      with dj e(3) show "set (snd e1) \<inter> set (snd e2) = {}" by blast
    qed
    have dt': "distinct (map tile_cell data')" using sub dt by (auto simp: distinct_map_filter)
    from tick_released [OF h, of mouse_pos] t c
    have "s' = \<lparr>words = ws', alphabet_data = data', mouse_drag_pos = ?t0, drag_event = False\<rparr>"
      by (simp add: Let_def)
    with d' dj' dt' show ?thesis by (simp add: game_inv_def)
  qed
qed

lemma main_loop_game_inv:
  assumes "game_inv s" and "main_loop s inputs = (out, Running s')"
  shows "game_inv s'"
  using assms
proof (induction inputs arbitrary: s out)
  case Nil
  then show ?case by simp
next
  case (Cons inp inputs)
  obtain events mouse_pos where inp: "inp = (events, mouse_pos)" by (cases inp)
  obtain o1 st where t: "tick s events mouse_pos = (o1, st)" by (cases "tick s events mouse_pos")
  show ?case
  proof (cases st)
    case (Running s1)
    with t Cons.prems(1) have i1: "game_inv s1" by (auto intro: tick_game_inv)
    obtain o2 st2 where m: "main_loop s1 inputs = (o2, st2)" by (cases "main_loop s1 inputs")
    with Cons.prems(2) inp t Running have "st2 = Running s'" by simp
    with m Cons.IH [OF i1] show ?thesis by simp
  next
    case Exited
    with Cons.prems(2) inp t show ?thesis by simp
  next
    case (Raised e)
    with Cons.prems(2) inp t show ?thesis by simp
  qed
qed

lemma place_letters_snd:
  "place_letters alphabets w bs i ps = Inr ts
     \<Longrightarrow> map snd ts = map (\<lambda>pos. (fst pos * fst bs, snd pos * snd bs)) ps"
proof (induction ps arbitrary: i ts)
  case Nil
  then show ?case by simp
next
  case (Cons pos rest)
  from Cons.prems obtain surface ts' where
    r: "place_letters alphabets w bs (Suc i) rest = Inr ts'"
    and ts: "ts = (surface, (fst pos * fst bs, snd pos * snd bs)) # ts'"
    by (auto split: if_splits option.splits sum.splits)
  from Cons.IH [OF r] ts show ?case by simp
qed

lemma get_word_data_func_snd:
  "get_word_data_func alphabets pd bs = Inr ts
     \<Longrightarrow> map snd ts = map (\<lambda>pos. (fst pos * fst bs, snd pos * snd bs)) (concat (map snd pd))"
proof (induction pd arbitrary: ts)
  case Nil
  then show ?case by simp
next
  case (Cons e pd)
  obtain word orientation pos_list where e: "e = ((word, orientation), pos_list)"
    by (metis prod.collapse)
  from Cons.prems e obtain w' t1 t2 where
    p: "place_letters alphabets w' bs 0 pos_list = Inr t1"
    and r: "get_word_data_func alphabets pd bs = Inr t2" and ts: "ts = t1 @ t2"
    by (auto simp: Let_def split: if_splits sum.splits)
  from place_letters_snd [OF p] Cons.IH [OF r] ts e show ?case by simp
qed

lemma distinct_concat_placements:
  assumes "distinct pd" and "\<forall>e\<in>set pd. distinct (snd e)"
    and "\<forall>e1\<in>set pd. \<forall>e2\<in>set pd. e1 \<noteq> e2 \<longrightarrow> set (snd e1) \<inter> set (snd e2) = {}"
  shows "distinct (concat (map snd pd))"
  using assms
proof (induction pd)
  case Nil
  then show ?case by simp
next
  case (Cons e pd)
  have "set (snd e) \<inter> set (snd e') = {}" if "e' \<in> set pd" for e'
  proof -
    from Cons.prems(1) that have "e \<noteq> e'" by auto
    with Cons.prems(3) that show ?thesis by simp
  qed
  then have "set (snd e) \<inter> \<Union>(set ` set (map snd pd)) = {}" by auto
  moreover have "distinct (concat (map snd pd))"
    using Cons.prems by (intro Cons.IH) auto
  ultimately show ?case using Cons.prems(2) by simp
qed

lemma tile_cell_scaled:
  "tile_cell (c, (fst pos * fst block_size, snd pos * snd block_size)) = pos"
  by (simp add: tile_cell_def block_size_def)

lemma fill_cells_inv:
  assumes "fill_cells rnd alphabets block_size cells result n = Inr (result', n')"
    and "distinct (map tile_cell result)"
    and "\<forall>t\<in>set result. snd t = (fst (tile_cell t) * fst block_size, snd (tile_cell t) * snd block_size)"
  shows "distinct (map tile_cell result')
       \<and> (\<forall>t\<in>set result'. snd t = (fst (tile_cell t) * fst block_size,
                                     snd (tile_cell t) * snd block_size))"
  using assms
proof (induction cells arbitrary: result n)
  case Nil
  then show ?case by simp
next
  case (Cons cell cells)
  obtain i j where cell: "cell = (i, j)" by (cases cell)
  let ?pos = "(i * fst block_size, j * snd block_size)"
  show ?case
  proof (cases "list_ex (\<lambda>data. ?pos = snd data) result")
    case True
    with Cons.prems(1) cell
    have "fill_cells rnd alphabets block_size cells result n = Inr (result', n')" by simp
    from Cons.IH [OF this Cons.prems(2,3)] show ?thesis .
  next
    case False
    with Cons.prems(1) cell obtain surface n1 where
      r: "fill_cells rnd alphabets block_size cells (result @ [(surface, ?pos)]) n1 = Inr (result', n')"
      by (auto split: sum.splits option.splits)
    have c: "tile_cell (surface, ?pos) = (i, j)"
      using tile_cell_scaled [of surface "(i, j)"] by simp
    have "(i, j) \<notin> tile_cell ` set result"
    proof
      assume "(i, j) \<in> tile_cell ` set result"
      then obtain t where t: "t \<in> set result" "tile_cell t = (i, j)" by auto
      with Cons.prems(3) have "snd t = ?pos" by simp
      with t(1) False show False by (auto simp: list_ex_iff)
    qed
    with Cons.prems(2) c have d: "distinct (map tile_cell (result @ [(surface, ?pos)]))" by simp
    have s: "\<forall>t\<in>set (result @ [(surface, ?pos)]).
               snd t = (fst (tile_cell t) * fst block_size, snd (tile_cell t) * snd block_size)"
      using Cons.prems(3) c by auto
    from Cons.IH [OF r d s] show ?thesis .
  qed
qed

lemma main_setup_game_inv:
  assumes "main_setup rnd word_bank alphabet_tiles = Some (Inr s)"
  shows "game_inv s"
proof -
  obtain grid_pos where gp: "get_grid_pos block_size grid_size (0, 0) = Inr grid_pos"
    using assms by (cases "get_grid_pos block_size grid_size (0, 0)") (simp_all add: main_setup_def)
  obtain final_words n where
    w: "Words_init rnd word_bank (length grid_pos) 0 = Some (Inr (final_words, n))"
    using assms gp
    by (cases "Words_init rnd word_bank (length grid_pos) 0")
       (auto simp: main_setup_def split: sum.splits)
  obtain tiles n' where
    g: "get_word_data rnd alphabet_tiles final_words block_size (length grid_pos) n
              = Inr (tiles, n')"
    using assms gp w
    by (cases "get_word_data rnd alphabet_tiles final_words block_size (length grid_pos) n")
       (auto simp: main_setup_def)
  have s: "s = \<lparr>words = final_words, alphabet_data = tiles, mouse_drag_pos = [],
                  drag_event = False\<rparr>"
    using assms gp w g by (simp add: main_setup_def)
  from Words_init_inv [OF w]
  have inv: "placement_inv rnd (int (isqrt (length grid_pos))) final_words
               (\<Union>e\<in>set final_words. set (snd e))" by simp
  then have d: "distinct (map fst final_words)"
    and dj: "\<forall>e1\<in>set final_words. \<forall>e2\<in>set final_words.
               e1 \<noteq> e2 \<longrightarrow> set (snd e1) \<inter> set (snd e2) = {}"
    unfolding placement_inv_def by blast+
  have dw: "distinct final_words" using d by (rule distinct_map [THEN iffD1, THEN conjunct1])
  have de: "\<forall>e\<in>set final_words. distinct (snd e)"
  proof
    fix e assume e: "e \<in> set final_words"
    obtain word ori ps where eq: "e = ((word, ori), ps)" by (metis prod.collapse)
    from Words_init_entry [OF w e [unfolded eq]] obtain j j' where
      "ori \<in> set ORIENTATIONS"
      "select_random_pos rnd ori (int (isqrt (length grid_pos))) (length word) j = Inr (ps, j')"
      by blast
    from select_random_pos_geometry [OF this] eq show "distinct (snd e)" by simp
  qed
  from g obtain original_result where
    f: "get_word_data_func alphabet_tiles final_words block_size = Inr original_result"
    and fc: "fill_cells rnd alphabet_tiles block_size (grid_cells (isqrt (length grid_pos)))
               original_result n = Inr (tiles, n')"
    by (auto simp: get_word_data_def split: sum.splits)
  let ?scale = "\<lambda>pos :: coord. (fst pos * fst block_size, snd pos * snd block_size)"
  have sn: "map snd original_result = map ?scale (concat (map snd final_words))"
    using f by (rule get_word_data_func_snd)
  have cells: "map tile_cell original_result = concat (map snd final_words)"
  proof -
    have "tile_cell t = (fst (snd t) div 50, snd (snd t) div 50)" for t :: "'a tile"
      by (simp add: tile_cell_def block_size_def)
    then have "map tile_cell original_result
                 = map (\<lambda>p. (fst p div 50, snd p div 50)) (map snd original_result)"
      by simp
    also have "\<dots> = concat (map snd final_words)"
      unfolding sn by (simp add: block_size_def comp_def)
    finally show ?thesis .
  qed
  have d0: "distinct (map tile_cell original_result)"
    unfolding cells using dw de dj by (rule distinct_concat_placements)
  have s0: "\<forall>t\<in>set original_result. snd t = ?scale (tile_cell t)"
  proof
    fix t assume "t \<in> set original_result"
    then have "snd t \<in> set (map snd original_result)" by simp
    then obtain pos where "snd t = ?scale pos" unfolding sn by auto
    then show "snd t = ?scale (tile_cell t)"
      by (simp add: tile_cell_def block_size_def)
  qed
  from fill_cells_inv [OF fc d0 s0] have "distinct (map tile_cell tiles)" by simp
  with d dj s show ?thesis by (simp add: game_inv_def)
qed

text \<open>
  In a tick in which \<^verbatim>\<open>drag_event\<close> goes from set to unset, when the selection trace is
  the coordinate list of the active word \<open>k\<close>, the loop goes on with that one entry
  removed from \<^verbatim>\<open>words\<close>, which has one entry less, and with \<^verbatim>\<open>alphabet_data\<close>
  without the tiles on the cells of the trace, all other tiles kept in their order.
\<close>

lemma tick_matched_release:
  assumes "game_inv s" and "drag_event s"
    and "handle_events events (drag_event s) = Some False"
    and "(k, mouse_drag_pos s) \<in> set (words s)"
  shows "\<exists>out s'. tick s events mouse_pos = (out, Running s')
           \<and> words s' = remove1 (k, mouse_drag_pos s) (words s)
           \<and> set (words s') = set (words s) - {(k, mouse_drag_pos s)}
           \<and> Suc (length (words s')) = length (words s)
           \<and> alphabet_data s'
               = filter (\<lambda>t. tile_cell t \<notin> set (mouse_drag_pos s)) (alphabet_data s)"
proof -
  let ?trace = "mouse_drag_pos s"
  from assms(1,2) have ne: "?trace \<noteq> []" and d: "distinct (map fst (words s))"
    and dj: "\<forall>e1\<in>set (words s). \<forall>e2\<in>set (words s). e1 \<noteq> e2 \<longrightarrow> set (snd e1) \<inter> set (snd e2) = {}"
    and dt: "distinct (map tile_cell (alphabet_data s))"
    by (simp_all add: game_inv_def)
  from filter_matched_word [OF d dj assms(4) ne]
  have f: "filter (\<lambda>(word_data, pos). pos \<noteq> ?trace) (words s) = remove1 (k, ?trace) (words s)"
    and l: "Suc (length (remove1 (k, ?trace) (words s))) = length (words s)"
    and st: "set (remove1 (k, ?trace) (words s)) = set (words s) - {(k, ?trace)}" by simp_all
  have ex: "list_ex (\<lambda>word_data. ?trace = word_data) (map snd (words s))"
    using assms(4) by (force simp: list_ex_iff)
  have c: "check_selection False ?trace (words s) (alphabet_data s)
         = (remove1 (k, ?trace) (words s),
            filter (\<lambda>t. tile_cell t \<notin> set ?trace) (alphabet_data s))"
    using ne ex f fold_pop_matching_filter [OF dt, of ?trace] by (simp add: check_selection_def)
  from tick_released [OF assms(3), of mouse_pos] assms(2) c l st show ?thesis
    by (simp add: Let_def)
qed

text \<open>
  Claim C7 says that whenever a drag ends on the coordinate list of an active word, that
  word and its tiles are removed. The loop looks at \<^verbatim>\<open>drag_event\<close> only after all the
  events of a tick: when the button is released and pressed again within one tick, the
  drag that ended is never checked. Here the trace is the coordinate list of \<^verbatim>\<open>CAT\<close>
  when the release arrives; the word and its three tiles are still there after that tick
  and after the release that follows it.
\<close>

theorem drag_end_in_one_batch_keeps_word:
  "main_loop \<lparr>words = [((''CAT'', ''HL''), [(0, 1), (1, 1), (2, 1)])],
               alphabet_data = [(CHR ''C'', (0, 50)), (CHR ''A'', (50, 50)), (CHR ''T'', (100, 50))],
               mouse_drag_pos = [(0, 1), (1, 1), (2, 1)], drag_event = True\<rparr>
       [([MOUSEBUTTONUP, MOUSEBUTTONDOWN], (300, 300)), ([MOUSEBUTTONUP], (300, 300))]
     = ([], Running \<lparr>words = [((''CAT'', ''HL''), [(0, 1), (1, 1), (2, 1)])],
               alphabet_data = [(CHR ''C'', (0, 50)), (CHR ''A'', (50, 50)), (CHR ''T'', (100, 50))],
               mouse_drag_pos = [(0, 1), (1, 1), (2, 1), (6, 6)], drag_event = False\<rparr>)"
  by (simp add: tick_def record_drag_eq check_selection_def)

subsection \<open>Letters on the tiles of the placements\<close>

lemma place_letters_exact:
  assumes "place_letters alphabets w bs i ps = Inr ts" and "i \<le> length w"
  shows "i + length ps \<le> length w
       \<and> map (\<lambda>t. (Some (fst t), snd t)) ts
           = map (\<lambda>(c, pos). (alphabets c, (fst pos * fst bs, snd pos * snd bs))) (zip (drop i w) ps)"
  using assms
proof (induction ps arbitrary: i ts)
  case Nil
  then show ?case by simp
next
  case (Cons pos rest)
  from Cons.prems(1) have i: "i < length w" by (auto split: if_splits)
  then have d: "drop i w = w ! i # drop (Suc i) w" by (simp add: Cons_nth_drop_Suc)
  from Cons.prems(1) i obtain surface ts' where
    a: "alphabets (w ! i) = Some surface"
    and r: "place_letters alphabets w bs (Suc i) rest = Inr ts'"
    and ts: "ts = (surface, (fst pos * fst bs, snd pos * snd bs)) # ts'"
    by (auto split: option.splits sum.splits)
  from i have "Suc i \<le> length w" by simp
  from Cons.IH [OF r this] a ts show ?case by (simp add: d)
qed

lemma get_word_data_func_entry:
  assumes "get_word_data_func alphabets pd bs = Inr orig"
    and "((word, orientation), pos_list) \<in> set pd"
  shows "\<exists>ts. place_letters alphabets
                (if orientation ! 1 \<in> set ''RD'' then rev word else word) bs 0 pos_list = Inr ts
              \<and> set ts \<subseteq> set orig"
  using assms
proof (induction pd arbitrary: orig)
  case Nil
  then show ?case by simp
next
  case (Cons e pd)
  obtain word1 ori1 ps1 where e: "e = ((word1, ori1), ps1)" by (metis prod.collapse)
  from Cons.prems(1) e obtain t1 t2 where
    p: "place_letters alphabets (if ori1 ! 1 \<in> set ''RD'' then rev word1 else word1) bs 0 ps1 = Inr t1"
    and r: "get_word_data_func alphabets pd bs = Inr t2" and o: "orig = t1 @ t2"
    by (auto simp: Let_def split: if_splits sum.splits)
  show ?case
  proof (cases "((word, orientation), pos_list) = e")
    case True
    with e p o show ?thesis by auto
  next
    case False
    with Cons.prems(2) have "((word, orientation), pos_list) \<in> set pd" by simp
    from Cons.IH [OF r this] o show ?thesis by auto
  qed
qed

lemma fill_cells_extends:
  assumes "fill_cells rnd alphabets bs cells result n = Inr (result', n')"
    and "distinct (map snd result)"
  shows "distinct (map snd result') \<and> set result \<subseteq> set result'"
  using assms
proof (induction cells arbitrary: result n)
  case Nil
  then show ?case by simp
next
  case (Cons cell cells)
  obtain i j where cell: "cell = (i, j)" by (cases cell)
  let ?pos = "(i * fst bs, j * snd bs)"
  show ?case
  proof (cases "list_ex (\<lambda>data. ?pos = snd data) result")
    case True
    with Cons.prems(1) cell
    have "fill_cells rnd alphabets bs cells result n = Inr (result', n')" by simp
    from Cons.IH [OF this Cons.prems(2)] show ?thesis .
  next
    case False
    with Cons.prems(1) cell obtain surface n1 where
      r: "fill_cells rnd alphabets bs cells (result @ [(surface, ?pos)]) n1 = Inr (result', n')"
      by (auto split: sum.splits option.splits)
    from False have "?pos \<notin> snd ` set result" by (auto simp: list_ex_iff)
    with Cons.prems(2) have "distinct (map snd (result @ [(surface, ?pos)]))" by simp
    from Cons.IH [OF r this] show ?thesis by simp
  qed
qed

lemma single_tile_at:
  assumes "distinct (map snd tiles)" and "t \<in> set tiles"
  shows "map fst (filter (\<lambda>u. snd u = snd t) tiles) = [fst t]"
  using assms
proof (induction tiles)
  case Nil
  then show ?case by simp
next
  case (Cons u tiles)
  show ?case
  proof (cases "u = t")
    case True
    with Cons.prems(1) have "snd t \<notin> snd ` set tiles" by simp
    then have "filter (\<lambda>u. snd u = snd t) tiles = []"
      unfolding filter_empty_conv by (metis imageI)
    with True show ?thesis by simp
  next
    case False
    with Cons.prems have t: "t \<in> set tiles" and "snd u \<notin> snd ` set tiles" by auto
    with t have "snd u \<noteq> snd t" by force
    with Cons.IH t Cons.prems(1) show ?thesis by simp
  qed
qed

lemma scaled_positions_distinct:
  fixes bs :: coord
  assumes "fst bs \<noteq> 0" and "snd bs \<noteq> 0" and "distinct cells"
  shows "distinct (map (\<lambda>pos :: coord. (fst pos * fst bs, snd pos * snd bs)) cells)"
  using assms by (auto simp: distinct_map inj_on_def prod_eq_iff)

lemma run_two_words:
  "Words_init (draws [1, 2, 1, 0, 1, 0]) [''AB'', ''C''] 4 0 =
     Some (Inr ([((''AB'', ''HR''), [(0, 1), (1, 1)]), ((''C'', ''VU''), [(1, 0)])], 6))"
proof -
  let ?r = "draws [1, 2, 1, 0, 1, 0]"
  have o: "select_orientation ?r [''AB'', ''C''] 0 = Inr ([(''AB'', ''HR''), (''C'', ''VU'')], 2)"
    by (simp add: select_orientation_def choice_def ORIENTATIONS_def draws_def)
  have a: "select_random_pos ?r ''HR'' 2 (length ''AB'') 2 = Inr ([(0, 1), (1, 1)], 4)"
    by (simp add: select_random_pos_def randrange_def draws_def)
  have c: "select_random_pos ?r ''VU'' 2 (length ''C'') 4 = Inr ([(1, 0)], 6)"
    by (simp add: select_random_pos_def randrange_def draws_def)
  have r1: "retry ?r ''HR'' 2 (length ''AB'') {} [(0, 1), (1, 1)] 4 = Some (Inr ([(0, 1), (1, 1)], 4))"
    by (rule retry_free) simp
  have r2: "retry ?r ''VU'' 2 (length ''C'') ({} \<union> set [(0, 1), (1, 1)]) [(1, 0)] 6
              = Some (Inr ([(1, 0)], 6))"
    by (rule retry_free) simp
  show ?thesis
    by (simp only: Words_init_def o select_pos_def isqrt_4 of_nat_numeral select_pos_loop.simps
          a c r1 r2 sum.case prod.case option.case AList.update.simps fst_conv if_False if_True
          prod.inject list.inject char.inject simp_thms)
qed

lemma run_two_words_tiles:
  "get_word_data (draws [1, 2, 1, 0, 1, 0]) Some
       [((''AB'', ''HR''), [(0, 1), (1, 1)]), ((''C'', ''VU''), [(1, 0)])] (50, 50) 4 6
     = Inr ([(CHR ''B'', (0, 50)), (CHR ''A'', (50, 50)), (CHR ''C'', (50, 0)), (CHR ''A'', (0, 0))],
            7)"
proof -
  have g: "grid_cells 2 = [(0, 0), (0, 1), (1, 0), (1, 1)]"
    by (simp add: grid_cells_def upt_rec)
  show ?thesis
    by (simp add: get_word_data_def isqrt_4 g choice_def letters_def draws_def)
qed

text \<open>
  Claim C3. Let \<^verbatim>\<open>final_words\<close> be the mapping of the placement engine and
  \<^verbatim>\<open>get_word_data\<close> return the display data for it. Then for every entry
  \<open>((word, orientation), pos_list)\<close> the display data holds exactly one tile on the
  \<open>k\<close>-th coordinate, the tile of the \<open>k\<close>-th letter of the word for \<^verbatim>\<open>HL\<close> and
  \<^verbatim>\<open>VU\<close> and of the \<open>k\<close>-th letter of the reversed word for \<^verbatim>\<open>HR\<close> and \<^verbatim>\<open>VD\<close>;
  and the tiles found on the cells of the placement, visited in the reading direction of
  its orientation, are the tiles of the letters of the word in order.
\<close>

theorem placement_round_trip:
  assumes run: "Words_init rnd word_list grid_square_number i = Some (Inr (final_words, i'))"
    and data: "get_word_data rnd alphabets final_words bs grid_square_number i' = Inr (tiles, n')"
    and bs: "fst bs \<noteq> 0" "snd bs \<noteq> 0"
    and e: "((word, orientation), pos_list) \<in> set final_words"
  shows "map (\<lambda>cell. map Some (tiles_at tiles bs cell)) pos_list
           = map (\<lambda>c. [alphabets c])
               (if orientation = ''HR'' \<or> orientation = ''VD'' then rev word else word)
       \<and> map (\<lambda>cell. map Some (tiles_at tiles bs cell)) (reading_order orientation pos_list)
           = map (\<lambda>c. [alphabets c]) word"
proof -
  let ?scale = "\<lambda>pos :: coord. (fst pos * fst bs, snd pos * snd bs)"
  let ?w = "if orientation = ''HR'' \<or> orientation = ''VD'' then rev word else word"
  let ?f = "\<lambda>cell. map Some (tiles_at tiles bs cell)"
  \<comment> \<open>the placements\<close>
  from Words_init_inv [OF run]
  have inv: "placement_inv rnd (int (isqrt grid_square_number)) final_words
               (\<Union>e\<in>set final_words. set (snd e))" by simp
  then have d: "distinct (map fst final_words)"
    and dj: "\<forall>e1\<in>set final_words. \<forall>e2\<in>set final_words.
               e1 \<noteq> e2 \<longrightarrow> set (snd e1) \<inter> set (snd e2) = {}"
    unfolding placement_inv_def by blast+
  have dw: "distinct final_words" using d by (rule distinct_map [THEN iffD1, THEN conjunct1])
  have geo: "ori \<in> set ORIENTATIONS \<and> length ps = length w \<and> distinct ps"
    if "((w, ori), ps) \<in> set final_words" for w ori ps
  proof -
    from Words_init_entry [OF run that] obtain j j' where
      o: "ori \<in> set ORIENTATIONS"
      and s: "select_random_pos rnd ori (int (isqrt grid_square_number)) (length w) j = Inr (ps, j')"
      by blast
    from select_random_pos_geometry [OF o s] o show ?thesis by simp
  qed
  have de: "\<forall>e\<in>set final_words. distinct (snd e)"
  proof
    fix e assume "e \<in> set final_words"
    moreover obtain w ori ps where "e = ((w, ori), ps)" by (metis prod.collapse)
    ultimately show "distinct (snd e)" using geo by auto
  qed
  have dc: "distinct (concat (map snd final_words))"
    using dw de dj by (rule distinct_concat_placements)
  \<comment> \<open>the tiles\<close>
  from data obtain orig where
    f: "get_word_data_func alphabets final_words bs = Inr orig"
    and fc: "fill_cells rnd alphabets bs (grid_cells (isqrt grid_square_number)) orig i'
               = Inr (tiles, n')"
    by (auto simp: get_word_data_def split: sum.splits)
  have "map snd orig = map ?scale (concat (map snd final_words))"
    using f by (rule get_word_data_func_snd)
  with scaled_positions_distinct [OF bs dc] have "distinct (map snd orig)" by simp
  from fill_cells_extends [OF fc this]
  have dt: "distinct (map snd tiles)" and sub: "set orig \<subseteq> set tiles" by simp_all
  \<comment> \<open>the tiles of the entry\<close>
  from geo [OF e] have o: "orientation \<in> set ORIENTATIONS"
    and len: "length pos_list = length word" by simp_all
  from o have r: "orientation ! 1 \<in> set ''RD'' \<longleftrightarrow> orientation = ''HR'' \<or> orientation = ''VD''"
    by (auto simp: ORIENTATIONS_def)
  from get_word_data_func_entry [OF f e] r obtain ts where
    p: "place_letters alphabets ?w bs 0 pos_list = Inr ts" and ts: "set ts \<subseteq> set orig"
    by (auto cong: if_cong)
  from place_letters_exact [OF p]
  have m: "map (\<lambda>t. (Some (fst t), snd t)) ts
             = map (\<lambda>(c, pos). (alphabets c, ?scale pos)) (zip ?w pos_list)" by simp
  have lw: "length ?w = length pos_list" using len by simp
  from arg_cong [OF m, of length] lw have lt: "length ts = length pos_list" by simp
  have at: "?f (pos_list ! k) = [alphabets (?w ! k)]" if k: "k < length pos_list" for k
  proof -
    from k lt have "(map (\<lambda>t. (Some (fst t), snd t)) ts) ! k = (Some (fst (ts ! k)), snd (ts ! k))"
      by simp
    moreover from k lw
    have "(map (\<lambda>(c, pos). (alphabets c, ?scale pos)) (zip ?w pos_list)) ! k
            = (alphabets (?w ! k), ?scale (pos_list ! k))" by simp
    ultimately have s: "Some (fst (ts ! k)) = alphabets (?w ! k)"
      and q: "snd (ts ! k) = ?scale (pos_list ! k)" using m by simp_all
    from k lt have "ts ! k \<in> set ts" by simp
    with ts sub have "ts ! k \<in> set tiles" by blast
    from single_tile_at [OF dt this] q have "tiles_at tiles bs (pos_list ! k) = [fst (ts ! k)]"
      by (simp add: tiles_at_def)
    with s show ?thesis by simp
  qed
  have fwd: "map ?f pos_list = map (\<lambda>c. [alphabets c]) ?w"
    using lw at by (intro nth_equalityI) simp_all
  have "map ?f (reading_order orientation pos_list) = map (\<lambda>c. [alphabets c]) word"
  proof (cases "orientation = ''HR'' \<or> orientation = ''VD''")
    case True
    then have "map ?f (reading_order orientation pos_list) = rev (map ?f pos_list)"
      by (simp add: reading_order_def rev_map)
    also have "\<dots> = rev (map (\<lambda>c. [alphabets c]) (rev word))" using fwd True by simp
    also have "\<dots> = map (\<lambda>c. [alphabets c]) word" by (simp add: rev_map)
    finally show ?thesis .
  next
    case False
    with fwd show ?thesis by (simp add: reading_order_def)
  qed
  with fwd show ?thesis by simp
qed

theorem placement_round_trip_witness:
  "Words_init (draws [1, 2, 1, 0, 1, 0]) [''AB'', ''C''] 4 0 =
     Some (Inr ([((''AB'', ''HR''), [(0, 1), (1, 1)]), ((''C'', ''VU''), [(1, 0)])], 6))
   \<and> get_word_data (draws [1, 2, 1, 0, 1, 0]) Some
       [((''AB'', ''HR''), [(0, 1), (1, 1)]), ((''C'', ''VU''), [(1, 0)])] (50, 50) 4 6
     = Inr ([(CHR ''B'', (0, 50)), (CHR ''A'', (50, 50)), (CHR ''C'', (50, 0)), (CHR ''A'', (0, 0))],
            7)
   \<and> reading_order ''HR'' [(0, 1), (1, 1)] = [(1, 1), (0, 1)]
   \<and> map (tiles_at [(CHR ''B'', (0, 50)), (CHR ''A'', (50, 50)), (CHR ''C'', (50, 0)),
                     (CHR ''A'', (0, 0))] (50, 50)) [(1, 1), (0, 1)]
       = [''A'', ''B'']"
  using placement_round_trip [OF run_two_words run_two_words_tiles, of "''AB''" "''HR''" "[(0, 1), (1, 1)]"]
  by (simp add: run_two_words run_two_words_tiles reading_order_def tiles_at_def)

end
